theory Spec2Isabelle
  imports Main "HOL-Library.Char_ord"
begin

section \<open>Values shared by the two services\<close>

text \<open>
  Times are milliseconds since the epoch, as \<^verbatim>\<open>Date.now()\<close> gives them. Clock readings
  taken with no \<^verbatim>\<open>await\<close> between them are one instant of the model; every reading
  after an \<^verbatim>\<open>await\<close> is a parameter of its own.
\<close>

type_synonym time = int

text \<open>
  What a JavaScript \<^verbatim>\<open>throw\<close> carries: an \<^verbatim>\<open>Error\<close> object with its message, or
  any other value (for which \<^verbatim>\<open>error instanceof Error\<close> is false).
\<close>

datatype thrown = ErrorObj string | NonError

text \<open>
  The answer of \<^verbatim>\<open>client.messages.create\<close>: the promise rejects, or it resolves to a
  message with its content blocks and the two token counts of \<^verbatim>\<open>response.usage\<close>.
  The provider is outside the repository, so its answer is an input of every function
  that calls it.
\<close>

datatype content_block = TextBlock string | OtherBlock

datatype api_result = Rejected thrown | Message "content_block list" nat nat

text \<open>
  \<^verbatim>\<open>response.content[0]\<close> of an empty content array is \<^verbatim>\<open>undefined\<close>, and reading
  \<^verbatim>\<open>.type\<close> of it raises a TypeError with the runtime's message.
\<close>

definition typeErrorOfUndefined :: thrown where
  "typeErrorOfUndefined = ErrorObj ''Cannot read properties of undefined (reading 'type')''"

section \<open>The generation client (AIService)\<close>

subsection \<open>The request cache\<close>

record cache_entry =
  result :: string
  timestamp :: time

type_synonym request_cache = "string \<rightharpoonup> cache_entry"

definition ttl :: int where
  "ttl = 3600000"

text \<open>
  The loop over \<^verbatim>\<open>requestCache.entries()\<close> deletes every entry whose age is more than
  the time to live; what it leaves is the same whatever order it visits the entries in.
\<close>

definition sweep :: "time \<Rightarrow> request_cache \<Rightarrow> request_cache" where
  "sweep now c =
     (\<lambda>k. case c k of
             None \<Rightarrow> None
           | Some e \<Rightarrow> if now - timestamp e > ttl then None else Some e)"

subsection \<open>generateComponent\<close>

record generated =
  code :: string
  tokensUsed :: nat

definition failedToGenerate :: thrown where
  "failedToGenerate = ErrorObj ''Failed to generate component''"

text \<open>
  \<open>now\<close> is the clock at the cache check, \<open>now'\<close> the clock after the provider has
  answered. Everything raised inside the \<^verbatim>\<open>try\<close> (the provider's rejection, the
  TypeError of an empty content array, the non-text first block) is replaced by the one
  error of the \<^verbatim>\<open>catch\<close>. The result is paired with the cache the call leaves.
  \<open>freshEntry\<close> is the condition of the cache check: an entry is there and it is
  younger than the time to live.
\<close>

definition freshEntry :: "request_cache \<Rightarrow> string \<Rightarrow> time \<Rightarrow> cache_entry option" where
  "freshEntry c prompt now =
     (case c prompt of
        None \<Rightarrow> None
      | Some cached \<Rightarrow> if now - timestamp cached < ttl then Some cached else None)"

definition generateComponent ::
  "request_cache \<Rightarrow> string \<Rightarrow> time \<Rightarrow> time \<Rightarrow> api_result \<Rightarrow> (thrown + generated) \<times> request_cache"
where
  "generateComponent c prompt now now' response =
     (case freshEntry c prompt now of
        Some cached \<Rightarrow> (Inr \<lparr>code = result cached, tokensUsed = 0\<rparr>, c)
      | None \<Rightarrow>
          (case response of
             Rejected e \<Rightarrow> (Inl failedToGenerate, c)
           | Message [] i out \<Rightarrow> (Inl failedToGenerate, c)
           | Message (OtherBlock # bs) i out \<Rightarrow> (Inl failedToGenerate, c)
           | Message (TextBlock t # bs) i out \<Rightarrow>
               (Inr \<lparr>code = t, tokensUsed = i + out\<rparr>,
                sweep now' (c(prompt \<mapsto> \<lparr>result = t, timestamp = now'\<rparr>)))))"

subsection \<open>improveCode\<close>

definition improveCode :: "api_result \<Rightarrow> thrown + string" where
  "improveCode response =
     (case response of
        Rejected e \<Rightarrow> Inl e
      | Message [] i out \<Rightarrow> Inl typeErrorOfUndefined
      | Message (TextBlock t # bs) i out \<Rightarrow> Inr t
      | Message (OtherBlock # bs) i out \<Rightarrow> Inl (ErrorObj ''Unexpected response type''))"

subsection \<open>validateComponent\<close>

text \<open>
  \<^verbatim>\<open>toLowerCase\<close> on the letters A to Z; every other character is left as it is.
  No character outside ASCII lowers to one of the letters of the two words searched for
  without a combining mark after it, so the search sees what the source's search sees.
\<close>

definition lowerChar :: "char \<Rightarrow> char" where
  "lowerChar ch =
     (if CHR ''A'' \<le> ch \<and> ch \<le> CHR ''Z'' then char_of (of_char ch + (32::nat)) else ch)"

definition toLowerCase :: "string \<Rightarrow> string" where
  "toLowerCase s = map lowerChar s"

fun startsWith :: "string \<Rightarrow> string \<Rightarrow> bool" where
  "startsWith s [] = True"
| "startsWith [] (n # ns) = False"
| "startsWith (x # xs) (n # ns) = (x = n \<and> startsWith xs ns)"

fun includesStr :: "string \<Rightarrow> string \<Rightarrow> bool" where
  "includesStr [] needle = startsWith [] needle"
| "includesStr (x # xs) needle = (startsWith (x # xs) needle \<or> includesStr xs needle)"

record validation =
  valid :: bool
  issues :: "string list"

definition hasIssues :: "string \<Rightarrow> bool" where
  "hasIssues text =
     (includesStr (toLowerCase text) ''issue'' \<or> includesStr (toLowerCase text) ''error'')"

definition validateComponent :: "api_result \<Rightarrow> thrown + validation" where
  "validateComponent response =
     (case response of
        Rejected e \<Rightarrow> Inl e
      | Message [] i out \<Rightarrow> Inl typeErrorOfUndefined
      | Message (TextBlock t # bs) i out \<Rightarrow>
          Inr \<lparr>valid = \<not> hasIssues t, issues = (if hasIssues t then [t] else [])\<rparr>
      | Message (OtherBlock # bs) i out \<Rightarrow> Inr \<lparr>valid = True, issues = []\<rparr>)"

section \<open>The job store\<close>

text \<open>
  A row of the \<^verbatim>\<open>queueJob\<close> table. \<^verbatim>\<open>id\<close> and \<^verbatim>\<open>type\<close> are written \<open>jobId\<close> and
  \<open>jobType\<close>. The payload is the JSON object the handlers destructure: its string
  fields by key, a key that is absent reading as \<^verbatim>\<open>undefined\<close>.
\<close>

record job =
  jobId :: string
  jobType :: string
  payload :: "(string \<times> string) list"
  status :: string
  priority :: int
  attempts :: int
  maxAttempts :: int
  scheduledFor :: time
  startedAt :: "time option"
  completedAt :: "time option"
  error :: "string option"
  createdAt :: time

text \<open>The rows the handlers write to: a generation, and a component with its JSON data.\<close>

record generation_row =
  genStatus :: string
  genResult :: "string option"
  genTokensUsed :: "nat option"
  genCompletedAt :: "time option"

datatype component_json =
    Opaque string
  | CodeOnly string
  | WithValidation "string option" validation time

record component_row =
  componentData :: component_json
  updatedAt :: "time option"

record db =
  queueJob :: "job list"
  generation :: "string \<rightharpoonup> generation_row"
  component :: "string \<rightharpoonup> component_row"

text \<open>
  The errors of the query layer: \<^verbatim>\<open>update\<close> rejects when no row has the id, or when
  the id of the \<^verbatim>\<open>where\<close> is \<^verbatim>\<open>undefined\<close>; \<^verbatim>\<open>create\<close> rejects when the id is taken.
\<close>

definition recordNotFound :: thrown where
  "recordNotFound = ErrorObj ''Record to update not found.''"

definition invalidWhere :: thrown where
  "invalidWhere = ErrorObj ''Argument where needs at least one argument.''"

definition uniqueConstraintFailed :: thrown where
  "uniqueConstraintFailed = ErrorObj ''Unique constraint failed on the fields: (id)''"

definition findUnique :: "job list \<Rightarrow> string \<Rightarrow> job option" where
  "findUnique jobs i = find (\<lambda>j. jobId j = i) jobs"

definition updateJob :: "job list \<Rightarrow> string \<Rightarrow> (job \<Rightarrow> job) \<Rightarrow> thrown + job list" where
  "updateJob jobs i f =
     (case findUnique jobs i of
        None \<Rightarrow> Inl recordNotFound
      | Some found \<Rightarrow> Inr (map (\<lambda>j. if jobId j = i then f j else j) jobs))"

definition updateRow ::
  "(string \<rightharpoonup> 'r) \<Rightarrow> string option \<Rightarrow> ('r \<Rightarrow> 'r) \<Rightarrow> thrown + (string \<rightharpoonup> 'r)"
where
  "updateRow table i f =
     (case i of
        None \<Rightarrow> Inl invalidWhere
      | Some k \<Rightarrow>
          (case table k of
             None \<Rightarrow> Inl recordNotFound
           | Some r \<Rightarrow> Inr (table(k \<mapsto> f r))))"

text \<open>
  \<^verbatim>\<open>findFirst\<close> with \<^verbatim>\<open>where {status: "pending", scheduledFor: {lte: now}}\<close> and
  \<^verbatim>\<open>orderBy [{priority: "desc"}, {createdAt: "asc"}]\<close>. \<open>runsBefore j k\<close> says
  that \<open>j\<close> is strictly earlier than \<open>k\<close> in that order. Among rows equal in both keys
  the store is free to choose; the model takes the first in table order.
\<close>

definition eligible :: "time \<Rightarrow> job \<Rightarrow> bool" where
  "eligible now j = (status j = ''pending'' \<and> scheduledFor j \<le> now)"

definition runsBefore :: "job \<Rightarrow> job \<Rightarrow> bool" where
  "runsBefore j k =
     (priority j > priority k \<or> (priority j = priority k \<and> createdAt j < createdAt k))"

definition findFirst :: "job list \<Rightarrow> time \<Rightarrow> job option" where
  "findFirst jobs now =
     (case filter (eligible now) jobs of
        [] \<Rightarrow> None
      | j # js \<Rightarrow> Some (fold (\<lambda>k best. if runsBefore k best then k else best) js j))"

section \<open>The queue service\<close>

record failed_entry =
  failedId :: string
  failedError :: string
  failedAt :: time

text \<open>
  The fields of one \<^verbatim>\<open>QueueService\<close> instance, with the request cache of the
  \<^verbatim>\<open>AIService\<close> it owns. Several instances (worker processes) share one \<open>db\<close>.
\<close>

record worker =
  processing :: bool
  processedJobs :: "string set"
  failedJobsCache :: "failed_entry list"
  requestCache :: request_cache

subsection \<open>addJob\<close>

text \<open>
  The schema of the store is not among the sources; what it assigns to a new row is a
  parameter: \<open>dflt\<close>, the default of \<^verbatim>\<open>maxAttempts\<close>, \<open>newId\<close>, the generated id, and
  \<open>created\<close>, the creation time. \<^verbatim>\<open>job.priority || 0\<close> is 0 for an absent priority
  and for 0.
\<close>

record job_input =
  inType :: string
  inPayload :: "(string \<times> string) list"
  inPriority :: "int option"

definition addJob ::
  "int \<Rightarrow> string \<Rightarrow> time \<Rightarrow> time \<Rightarrow> job_input \<Rightarrow> db \<Rightarrow> thrown + (job \<times> db)"
where
  "addJob dflt newId created now inp d =
     (case findUnique (queueJob d) newId of
        Some taken \<Rightarrow> Inl uniqueConstraintFailed
      | None \<Rightarrow>
          (let newJob =
             \<lparr>jobId = newId, jobType = inType inp, payload = inPayload inp,
              status = ''pending'',
              priority = (case inPriority inp of None \<Rightarrow> 0 | Some n \<Rightarrow> n),
              attempts = 0, maxAttempts = dflt, scheduledFor = now,
              startedAt = None, completedAt = None, error = None, createdAt = created\<rparr>
           in Inr (newJob, d\<lparr>queueJob := queueJob d @ [newJob]\<rparr>)))"

subsection \<open>The handlers\<close>

text \<open>
  What one tick reads from outside: the clock at the \<^verbatim>\<open>findFirst\<close> query, at the
  update to processing, at the start of the handler, after the provider has answered,
  and after \<^verbatim>\<open>executeJob\<close> has returned or thrown; and the provider's answer to the one
  request a handler makes.
\<close>

record tick_env =
  tFind :: time
  tClaim :: time
  tExec :: time
  tResp :: time
  tDone :: time
  response :: api_result

text \<open>
  The \<^verbatim>\<open>catch\<close> of \<^verbatim>\<open>handleAIGeneration\<close>: the generation is marked failed and the
  error thrown again; when the update itself rejects, its error is the one that leaves.
\<close>

definition failGeneration ::
  "tick_env \<Rightarrow> string option \<Rightarrow> thrown \<Rightarrow> worker \<times> db \<Rightarrow> (thrown + unit) \<times> (worker \<times> db)"
where
  "failGeneration env generationId e s =
     (case updateRow (generation (snd s)) generationId
             (\<lambda>g. g\<lparr>genStatus := ''failed'', genCompletedAt := Some (tResp env)\<rparr>) of
        Inl e' \<Rightarrow> (Inl e', s)
      | Inr g' \<Rightarrow> (Inl e, (fst s, (snd s)\<lparr>generation := g'\<rparr>)))"

text \<open>
  A payload with no \<^verbatim>\<open>prompt\<close> makes \<^verbatim>\<open>prompt.length\<close> raise inside the
  \<^verbatim>\<open>try\<close> of \<^verbatim>\<open>generateComponent\<close>, before the cache is read.
\<close>

definition handleAIGeneration ::
  "tick_env \<Rightarrow> job \<Rightarrow> worker \<times> db \<Rightarrow> (thrown + unit) \<times> (worker \<times> db)"
where
  "handleAIGeneration env j s =
     (let generationId = map_of (payload j) ''generationId'';
          prompt = map_of (payload j) ''prompt'';
          (r, c') =
            (case prompt of
               None \<Rightarrow> (Inl failedToGenerate, requestCache (fst s))
             | Some p \<Rightarrow>
                 generateComponent (requestCache (fst s)) p (tExec env) (tResp env) (response env));
          w' = (fst s)\<lparr>requestCache := c'\<rparr>
      in case r of
           Inl e \<Rightarrow> failGeneration env generationId e (w', snd s)
         | Inr res \<Rightarrow>
             (case updateRow (generation (snd s)) generationId
                     (\<lambda>g. g\<lparr>genStatus := ''completed'', genResult := Some (code res),
                            genTokensUsed := Some (tokensUsed res),
                            genCompletedAt := Some (tResp env)\<rparr>) of
                Inl e \<Rightarrow> failGeneration env generationId e (w', snd s)
              | Inr g' \<Rightarrow> (Inr (), (w', (snd s)\<lparr>generation := g'\<rparr>))))"

definition handleAIImprovement ::
  "tick_env \<Rightarrow> job \<Rightarrow> worker \<times> db \<Rightarrow> (thrown + unit) \<times> (worker \<times> db)"
where
  "handleAIImprovement env j s =
     (let componentId = map_of (payload j) ''componentId''
      in case improveCode (response env) of
           Inl e \<Rightarrow> (Inl e, s)
         | Inr improvedCode \<Rightarrow>
             (case updateRow (component (snd s)) componentId
                     (\<lambda>c. c\<lparr>componentData := CodeOnly improvedCode,
                            updatedAt := Some (tResp env)\<rparr>) of
                Inl e \<Rightarrow> (Inl e, s)
              | Inr c' \<Rightarrow> (Inr (), (fst s, (snd s)\<lparr>component := c'\<rparr>))))"

definition handleAIValidation ::
  "tick_env \<Rightarrow> job \<Rightarrow> worker \<times> db \<Rightarrow> (thrown + unit) \<times> (worker \<times> db)"
where
  "handleAIValidation env j s =
     (let code = map_of (payload j) ''code'';
          componentId = map_of (payload j) ''componentId''
      in case validateComponent (response env) of
           Inl e \<Rightarrow> (Inl e, s)
         | Inr validation \<Rightarrow>
             (case updateRow (component (snd s)) componentId
                     (\<lambda>c. c\<lparr>componentData := WithValidation code validation (tResp env)\<rparr>) of
                Inl e \<Rightarrow> (Inl e, s)
              | Inr c' \<Rightarrow> (Inr (), (fst s, (snd s)\<lparr>component := c'\<rparr>))))"

subsection \<open>executeJob\<close>

definition executeJob ::
  "tick_env \<Rightarrow> job \<Rightarrow> worker \<times> db \<Rightarrow> (thrown + unit) \<times> (worker \<times> db)"
where
  "executeJob env j s =
     (if jobType j = ''ai_generation'' then handleAIGeneration env j s
      else if jobType j = ''ai_improvement'' then handleAIImprovement env j s
      else if jobType j = ''ai_validation'' then handleAIValidation env j s
      else (Inr (), s))"

subsection \<open>processNextJob\<close>

text \<open>
  The body of \<^verbatim>\<open>processNextJob\<close> in the three stretches its awaits cut it into.
  \<open>selectJob\<close> is the \<^verbatim>\<open>findFirst\<close> query with the two early returns after it (no
  row; a row this instance has in \<^verbatim>\<open>processedJobs\<close>). \<open>claimJob\<close> is the separate
  update to processing and the insertion into \<^verbatim>\<open>processedJobs\<close>. \<open>settleJob\<close> is
  what follows \<^verbatim>\<open>executeJob\<close>: the update to completed, or the \<^verbatim>\<open>catch\<close>
  (\<open>recordFailure\<close>). \<open>j\<close> is throughout the row as \<^verbatim>\<open>findFirst\<close> returned it.
\<close>

definition selectJob :: "time \<Rightarrow> worker \<times> db \<Rightarrow> job option" where
  "selectJob now s =
     (case findFirst (queueJob (snd s)) now of
        None \<Rightarrow> None
      | Some j \<Rightarrow> if jobId j \<in> processedJobs (fst s) then None else Some j)"

definition claimJob :: "time \<Rightarrow> job \<Rightarrow> worker \<times> db \<Rightarrow> thrown + (worker \<times> db)" where
  "claimJob now j s =
     (case updateJob (queueJob (snd s)) (jobId j)
             (\<lambda>r. r\<lparr>status := ''processing'', startedAt := Some now\<rparr>) of
        Inl e \<Rightarrow> Inl e
      | Inr jobs' \<Rightarrow>
          Inr ((fst s)\<lparr>processedJobs := insert (jobId j) (processedJobs (fst s))\<rparr>,
               (snd s)\<lparr>queueJob := jobs'\<rparr>))"

definition errorMessageOf :: "thrown \<Rightarrow> string" where
  "errorMessageOf e = (case e of ErrorObj m \<Rightarrow> m | NonError \<Rightarrow> ''Unknown error'')"

text \<open>
  An update that rejects inside the \<^verbatim>\<open>catch\<close> is caught by the outer \<^verbatim>\<open>catch\<close>,
  which only logs: the push to \<^verbatim>\<open>failedJobsCache\<close> stays, the table is as it was.
\<close>

definition recordFailure :: "time \<Rightarrow> job \<Rightarrow> thrown \<Rightarrow> worker \<times> db \<Rightarrow> worker \<times> db" where
  "recordFailure now j e s =
     (let newAttempts = attempts j + 1;
          errorMessage = errorMessageOf e;
          w' = (fst s)\<lparr>failedJobsCache := failedJobsCache (fst s) @
                 [\<lparr>failedId = jobId j, failedError = errorMessage, failedAt = now\<rparr>]\<rparr>
      in if newAttempts < maxAttempts j
         then
           (case updateJob (queueJob (snd s)) (jobId j)
                   (\<lambda>r. r\<lparr>status := ''pending'', attempts := newAttempts,
                          error := Some errorMessage, scheduledFor := now + 5000\<rparr>) of
              Inl e' \<Rightarrow> (w', snd s)
            | Inr jobs' \<Rightarrow> (w', (snd s)\<lparr>queueJob := jobs'\<rparr>))
         else
           (case updateJob (queueJob (snd s)) (jobId j)
                   (\<lambda>r. r\<lparr>status := ''failed'', attempts := newAttempts,
                          error := Some errorMessage, completedAt := Some now\<rparr>) of
              Inl e' \<Rightarrow> (w', snd s)
            | Inr jobs' \<Rightarrow> (w', (snd s)\<lparr>queueJob := jobs'\<rparr>)))"

definition settleJob :: "time \<Rightarrow> job \<Rightarrow> thrown + unit \<Rightarrow> worker \<times> db \<Rightarrow> worker \<times> db" where
  "settleJob now j r s =
     (case r of
        Inl e \<Rightarrow> recordFailure now j e s
      | Inr u \<Rightarrow>
          (case updateJob (queueJob (snd s)) (jobId j)
                  (\<lambda>r. r\<lparr>status := ''completed'', completedAt := Some now\<rparr>) of
             Inl e \<Rightarrow> recordFailure now j e s
           | Inr jobs' \<Rightarrow> (fst s, (snd s)\<lparr>queueJob := jobs'\<rparr>)))"

definition processNextJob :: "tick_env \<Rightarrow> worker \<times> db \<Rightarrow> worker \<times> db" where
  "processNextJob env s =
     (if processing (fst s) then s
      else
        (case selectJob (tFind env) s of
           None \<Rightarrow> ((fst s)\<lparr>processing := False\<rparr>, snd s)
         | Some j \<Rightarrow>
             (case claimJob (tClaim env) j s of
                Inl e \<Rightarrow> ((fst s)\<lparr>processing := False\<rparr>, snd s)
              | Inr s1 \<Rightarrow>
                  (let (r, s2) = executeJob env j s1;
                       s3 = settleJob (tDone env) j r s2
                   in ((fst s3)\<lparr>processing := False\<rparr>, snd s3)))))"

subsection \<open>retryJob\<close>

definition notFoundOrNotFailed :: thrown where
  "notFoundOrNotFailed = ErrorObj ''Job not found or not in failed state''"

text \<open>Nothing is written before a throw, so a thrown \<open>retryJob\<close> leaves the state as it was.\<close>

definition retryJob :: "string \<Rightarrow> time \<Rightarrow> worker \<times> db \<Rightarrow> thrown + (worker \<times> db)" where
  "retryJob i now s =
     (case findUnique (queueJob (snd s)) i of
        None \<Rightarrow> Inl notFoundOrNotFailed
      | Some j \<Rightarrow>
          if status j \<noteq> ''failed'' then Inl notFoundOrNotFailed
          else
            (case updateJob (queueJob (snd s)) i
                    (\<lambda>r. r\<lparr>status := ''pending'', attempts := 0, error := None,
                           scheduledFor := now, startedAt := None, completedAt := None\<rparr>) of
               Inl e \<Rightarrow> Inl e
             | Inr jobs' \<Rightarrow>
                 Inr ((fst s)\<lparr>processedJobs := processedJobs (fst s) - {i}\<rparr>,
                      (snd s)\<lparr>queueJob := jobs'\<rparr>)))"

subsection \<open>Calls on one instance\<close>

text \<open>
  A call on one instance that nothing interrupts: a call of \<^verbatim>\<open>addJob\<close>, a whole poll
  tick, a call of \<^verbatim>\<open>retryJob\<close>. A call that throws leaves the state as it was.
\<close>

datatype op = AddJob string time time job_input | Tick tick_env | RetryJob string time

definition step :: "int \<Rightarrow> op \<Rightarrow> worker \<times> db \<Rightarrow> worker \<times> db" where
  "step dflt oper s =
     (case oper of
        AddJob newId created now inp \<Rightarrow>
          (case addJob dflt newId created now inp (snd s) of
             Inl e \<Rightarrow> s
           | Inr (j, d') \<Rightarrow> (fst s, d'))
      | Tick env \<Rightarrow> processNextJob env s
      | RetryJob i now \<Rightarrow> (case retryJob i now s of Inl e \<Rightarrow> s | Inr s' \<Rightarrow> s'))"

subsection \<open>Several instances on one store\<close>

text \<open>
  Every request builds a \<^verbatim>\<open>QueueService\<close> of its own (\<^verbatim>\<open>createContext\<close>), and each of
  them polls the same store. A tick of one instance is cut by its awaits, and between two
  awaits the other instances, and the other calls on the same instance, run. A step is
  one awaited query of the store together with the synchronous code around it.

  \<open>phase\<close> says where the tick of an instance stands: no tick in flight; \<^verbatim>\<open>findFirst\<close>
  has returned a job that is not in \<^verbatim>\<open>processedJobs\<close>; the update to processing is
  done and the id is in \<^verbatim>\<open>processedJobs\<close>; \<^verbatim>\<open>executeJob\<close> has returned or thrown. The
  job a phase holds is the row as \<^verbatim>\<open>findFirst\<close> returned it, whatever has been written
  to the table since. \<^verbatim>\<open>executeJob\<close> writes the generation and component tables and
  the cache of its own instance, never the job table, and is taken as one step. A timer
  that fires while a tick is in flight returns at once and is no step.

  A call of \<^verbatim>\<open>retryJob\<close> is two steps: the \<^verbatim>\<open>findUnique\<close> with the test of the
  status, and the update with the removal from \<^verbatim>\<open>processedJobs\<close> after it.
  \<open>retrying\<close> holds the ids of the calls that stand between the two.

  The synchronous code that follows an await is taken in the same step as the query it
  waits for. It reads and writes the fields of its own instance only, and the one call
  that could come between the two, the write of a \<^verbatim>\<open>retryJob\<close> of the same instance on
  the same id, is excluded where a theorem below speaks of \<^verbatim>\<open>processedJobs\<close>.

  The instances of a schedule are listed from its start. An instance that has taken no
  step has an empty \<^verbatim>\<open>processedJobs\<close> and no tick in flight, as one that is built
  later has.
\<close>

datatype phase = Idle | Found job | Claimed job | Executed job "thrown + unit"

record inst =
  self :: worker
  tickPhase :: phase
  retrying :: "string list"

definition advance :: "tick_env \<Rightarrow> inst \<times> db \<Rightarrow> inst \<times> db" where
  "advance env g =
     (case tickPhase (fst g) of
        Idle \<Rightarrow>
          if processing (self (fst g)) then g
          else
            (case selectJob (tFind env) (self (fst g), snd g) of
               None \<Rightarrow> ((fst g)\<lparr>self := (self (fst g))\<lparr>processing := False\<rparr>\<rparr>, snd g)
             | Some j \<Rightarrow>
                 ((fst g)\<lparr>self := (self (fst g))\<lparr>processing := True\<rparr>, tickPhase := Found j\<rparr>,
                  snd g))
      | Found j \<Rightarrow>
          (case claimJob (tClaim env) j (self (fst g), snd g) of
             Inl e \<Rightarrow>
               ((fst g)\<lparr>self := (self (fst g))\<lparr>processing := False\<rparr>, tickPhase := Idle\<rparr>,
                snd g)
           | Inr s1 \<Rightarrow> ((fst g)\<lparr>self := fst s1, tickPhase := Claimed j\<rparr>, snd s1))
      | Claimed j \<Rightarrow>
          (let x = executeJob env j (self (fst g), snd g)
           in ((fst g)\<lparr>self := fst (snd x), tickPhase := Executed j (fst x)\<rparr>, snd (snd x)))
      | Executed j r \<Rightarrow>
          (let s3 = settleJob (tDone env) j r (self (fst g), snd g)
           in ((fst g)\<lparr>self := (fst s3)\<lparr>processing := False\<rparr>, tickPhase := Idle\<rparr>, snd s3)))"

definition retryRead :: "string \<Rightarrow> inst \<times> db \<Rightarrow> inst \<times> db" where
  "retryRead i g =
     (case findUnique (queueJob (snd g)) i of
        None \<Rightarrow> g
      | Some j \<Rightarrow>
          if status j \<noteq> ''failed'' then g
          else ((fst g)\<lparr>retrying := i # retrying (fst g)\<rparr>, snd g))"

definition retryWrite :: "string \<Rightarrow> time \<Rightarrow> inst \<times> db \<Rightarrow> inst \<times> db" where
  "retryWrite i now g =
     (if i \<notin> set (retrying (fst g)) then g
      else
        (case updateJob (queueJob (snd g)) i
                (\<lambda>r. r\<lparr>status := ''pending'', attempts := 0, error := None,
                       scheduledFor := now, startedAt := None, completedAt := None\<rparr>) of
           Inl e \<Rightarrow> ((fst g)\<lparr>retrying := remove1 i (retrying (fst g))\<rparr>, snd g)
         | Inr jobs' \<Rightarrow>
             ((fst g)\<lparr>self := (self (fst g))
                        \<lparr>processedJobs := processedJobs (self (fst g)) - {i}\<rparr>,
                      retrying := remove1 i (retrying (fst g))\<rparr>,
              (snd g)\<lparr>queueJob := jobs'\<rparr>)))"

text \<open>
  What one instance does in one step: a call of \<^verbatim>\<open>addJob\<close>, the next step of its
  tick, or one of the two steps of a call of \<^verbatim>\<open>retryJob\<close>. A schedule is a list of
  steps, each with the number of the instance that takes it.
\<close>

datatype event =
    Enqueue string time time job_input
  | Proceed tick_env
  | RetryRead string
  | RetryWrite string time

definition act :: "int \<Rightarrow> event \<Rightarrow> inst \<times> db \<Rightarrow> inst \<times> db" where
  "act dflt ev g =
     (case ev of
        Enqueue newId created now inp \<Rightarrow>
          (case addJob dflt newId created now inp (snd g) of
             Inl e \<Rightarrow> g
           | Inr (j, d') \<Rightarrow> (fst g, d'))
      | Proceed env \<Rightarrow> advance env g
      | RetryRead i \<Rightarrow> retryRead i g
      | RetryWrite i now \<Rightarrow> retryWrite i now g)"

definition perform :: "int \<Rightarrow> nat \<times> event \<Rightarrow> inst list \<times> db \<Rightarrow> inst list \<times> db" where
  "perform dflt e g =
     (if fst e < length (fst g)
      then (let g' = act dflt (snd e) (fst g ! fst e, snd g)
            in ((fst g)[fst e := fst g'], snd g'))
      else g)"

definition schedule :: "int \<Rightarrow> (nat \<times> event) list \<Rightarrow> inst list \<times> db \<Rightarrow> inst list \<times> db" where
  "schedule dflt evs g = fold (perform dflt) evs g"

subsection \<open>The stretches of a tick, named\<close>

text \<open>
  \<open>afterClaim\<close> is the state in which \<^verbatim>\<open>executeJob\<close> starts: the state \<open>claimJob\<close>
  leaves. \<open>outcome\<close> is what \<^verbatim>\<open>executeJob\<close> then does: \<open>Inr ()\<close> when it returns,
  \<open>Inl e\<close> when it throws \<open>e\<close>.
\<close>

definition afterClaim :: "time \<Rightarrow> job \<Rightarrow> worker \<times> db \<Rightarrow> worker \<times> db" where
  "afterClaim now j s = (case claimJob now j s of Inl e \<Rightarrow> s | Inr s1 \<Rightarrow> s1)"

definition outcome :: "tick_env \<Rightarrow> job \<Rightarrow> worker \<times> db \<Rightarrow> thrown + unit" where
  "outcome env j s = fst (executeJob env j (afterClaim (tClaim env) j s))"

section \<open>Example states\<close>

text \<open>
  Small concrete states on which the theorems below are run: a worker that has processed
  nothing, a generation row, and jobs with two attempts left, one attempt left, and a
  type no handler knows.
\<close>

definition worker0 :: worker where
  "worker0 = \<lparr>processing = False, processedJobs = {}, failedJobsCache = [],
              requestCache = Map.empty\<rparr>"

definition pendingJob :: "string \<Rightarrow> string \<Rightarrow> int \<Rightarrow> job" where
  "pendingJob i ty n =
     \<lparr>jobId = i, jobType = ty,
      payload = [(''generationId'', ''g1''), (''prompt'', ''button'')],
      status = ''pending'', priority = 0, attempts = n, maxAttempts = 3,
      scheduledFor = 0, startedAt = None, completedAt = None, error = None,
      createdAt = 0\<rparr>"

definition generation0 :: generation_row where
  "generation0 = \<lparr>genStatus = ''pending'', genResult = None, genTokensUsed = None,
                  genCompletedAt = None\<rparr>"

definition dbWith :: "job list \<Rightarrow> db" where
  "dbWith jobs = \<lparr>queueJob = jobs, generation = [''g1'' \<mapsto> generation0],
                  component = Map.empty\<rparr>"

definition envRejected :: tick_env where
  "envRejected = \<lparr>tFind = 10, tClaim = 11, tExec = 12, tResp = 13, tDone = 14,
                  response = Rejected (ErrorObj ''rate limited'')\<rparr>"

definition envAnswered :: tick_env where
  "envAnswered = \<lparr>tFind = 10, tClaim = 11, tExec = 12, tResp = 13, tDone = 14,
                  response = Message [TextBlock ''<Button/>''] 12 30\<rparr>"

text \<open>A tick six seconds later, past the retry delay of a job that failed at 14.\<close>

definition envLater :: tick_env where
  "envLater = \<lparr>tFind = 6000, tClaim = 6001, tExec = 6002, tResp = 6003, tDone = 6004,
               response = Message [TextBlock ''<Button/>''] 12 30\<rparr>"

text \<open>A job that has used its three attempts and failed.\<close>

definition failedJob :: "string \<Rightarrow> job" where
  "failedJob i =
     (pendingJob i ''ai_generation'' 3)
       \<lparr>status := ''failed'', error := Some ''Failed to generate component'',
        startedAt := Some 1, completedAt := Some 2\<rparr>"

text \<open>
  An instance with no tick and no call of \<^verbatim>\<open>retryJob\<close> in flight; a later tick on
  which the provider rejects the request; and a last one, after that.
\<close>

definition inst0 :: inst where
  "inst0 = \<lparr>self = worker0, tickPhase = Idle, retrying = []\<rparr>"

definition envLaterRejected :: tick_env where
  "envLaterRejected = \<lparr>tFind = 6000, tClaim = 6001, tExec = 6002, tResp = 6003, tDone = 6004,
                       response = Rejected (ErrorObj ''rate limited'')\<rparr>"

definition envLast :: tick_env where
  "envLast = \<lparr>tFind = 9996, tClaim = 9997, tExec = 9998, tResp = 9999, tDone = 10000,
              response = Rejected (ErrorObj ''rate limited'')\<rparr>"

text \<open>
  Two instances on a store with one job. In \<open>afterFirstFailure\<close> the first instance has
  run a whole tick on the job and the provider has rejected the request: the job is
  pending again, as \<open>requeuedRow\<close>. In \<open>atLastFailure\<close> the job had one attempt left
  and the tick of the first instance stands before its last write, \<^verbatim>\<open>executeJob\<close>
  having thrown. \<open>button\<close> is the input of a call of \<^verbatim>\<open>addJob\<close>.
\<close>

definition afterFirstFailure :: "inst list \<times> db" where
  "afterFirstFailure =
     schedule 3
       [(0, Proceed envRejected), (0, Proceed envRejected),
        (0, Proceed envRejected), (0, Proceed envRejected)]
       ([inst0, inst0], dbWith [pendingJob ''j1'' ''ai_generation'' 0])"

definition requeuedRow :: job where
  "requeuedRow =
     (pendingJob ''j1'' ''ai_generation'' 0)
       \<lparr>attempts := 1, scheduledFor := 5014, startedAt := Some 11,
        error := Some ''Failed to generate component''\<rparr>"


definition button :: job_input where
  "button = \<lparr>inType = ''ai_generation'',
             inPayload = [(''generationId'', ''g1''), (''prompt'', ''button'')],
             inPriority = None\<rparr>"

text \<open>Two worker processes on one store, neither of which has processed anything.\<close>

definition workerA :: worker where
  "workerA = worker0"

definition workerB :: worker where
  "workerB = worker0"

section \<open>Notions of the specification\<close>

text \<open>
  Case-insensitive containment, in the specification's words and with no reference to
  the code's lowering: two characters are the same letter when they are equal or when
  one is a capital of the Latin alphabet and the other the small letter at the same
  place; a text contains a word, ignoring case, when some stretch of the text matches
  the word letter by letter.
\<close>

definition upperLetters :: string where
  "upperLetters = ''ABCDEFGHIJKLMNOPQRSTUVWXYZ''"

definition lowerLetters :: string where
  "lowerLetters = ''abcdefghijklmnopqrstuvwxyz''"

definition sameLetter :: "char \<Rightarrow> char \<Rightarrow> bool" where
  "sameLetter a b =
     (a = b \<or> (a, b) \<in> set (zip upperLetters lowerLetters)
            \<or> (b, a) \<in> set (zip upperLetters lowerLetters))"

definition containsIgnoringCase :: "string \<Rightarrow> string \<Rightarrow> bool" where
  "containsIgnoringCase text word =
     (\<exists>before found after. text = before @ found @ after \<and> list_all2 sameLetter found word)"

text \<open>
  The bounds on the attempts of a row, as the operations keep them: the attempts are
  between 0 and \<open>maxAttempts\<close>, a pending row has an attempt left, and \<open>maxAttempts\<close>
  is at least 1. A store is in order when its ids are unique and every row is within
  these bounds. \<open>attemptsGrow\<close> says that every row of the first table is in the second,
  under the same id, with at least as many attempts.
\<close>

definition attemptsOk :: "job \<Rightarrow> bool" where
  "attemptsOk j =
     (0 \<le> attempts j \<and> attempts j \<le> maxAttempts j \<and> 1 \<le> maxAttempts j
      \<and> (status j = ''pending'' \<longrightarrow> attempts j < maxAttempts j))"

definition storeOk :: "job list \<Rightarrow> bool" where
  "storeOk jobs = (distinct (map jobId jobs) \<and> (\<forall>j \<in> set jobs. attemptsOk j))"

definition attemptsGrow :: "job list \<Rightarrow> job list \<Rightarrow> bool" where
  "attemptsGrow before after =
     (\<forall>j \<in> set before. \<exists>j' \<in> set after. jobId j' = jobId j \<and> attempts j \<le> attempts j')"

text \<open>
  Notions for schedules of several instances. \<open>holding\<close> is the job a phase holds, as
  it was read; an instance holds an id when its tick is in flight on a job of that id.
  An event is quiet for an id unless it is the write of a \<^verbatim>\<open>retryJob\<close> on that id, and
  it resets when it is the write of a \<^verbatim>\<open>retryJob\<close> on any id.
\<close>

fun holding :: "phase \<Rightarrow> job option" where
  "holding Idle = None"
| "holding (Found j) = Some j"
| "holding (Claimed j) = Some j"
| "holding (Executed j r) = Some j"

definition holdsId :: "inst \<Rightarrow> string \<Rightarrow> bool" where
  "holdsId x i = (case holding (tickPhase x) of None \<Rightarrow> False | Some j \<Rightarrow> jobId j = i)"

definition quiet :: "string \<Rightarrow> event \<Rightarrow> bool" where
  "quiet i ev =
     (case ev of
        RetryWrite k now \<Rightarrow> k \<noteq> i
      | Enqueue newId created now inp \<Rightarrow> True
      | Proceed env \<Rightarrow> True
      | RetryRead k \<Rightarrow> True)"

definition resets :: "event \<Rightarrow> bool" where
  "resets ev =
     (case ev of
        RetryWrite k now \<Rightarrow> True
      | Enqueue newId created now inp \<Rightarrow> False
      | Proceed env \<Rightarrow> False
      | RetryRead k \<Rightarrow> False)"

text \<open>
  A job held by a tick in flight was pending when it was read, so it had an attempt
  left; its row is still in the table, with the same \<open>maxAttempts\<close>. A system is in
  order when its store is and every instance holds such a job or none.
\<close>

definition phaseOk :: "job list \<Rightarrow> inst \<Rightarrow> bool" where
  "phaseOk jobs x =
     (case holding (tickPhase x) of
        None \<Rightarrow> True
      | Some j \<Rightarrow>
          0 \<le> attempts j \<and> attempts j < maxAttempts j
          \<and> (case findUnique jobs (jobId j) of
                None \<Rightarrow> False
              | Some row \<Rightarrow> maxAttempts row = maxAttempts j))"

definition systemOk :: "inst list \<times> db \<Rightarrow> bool" where
  "systemOk g =
     (storeOk (queueJob (snd g)) \<and> (\<forall>x \<in> set (fst g). phaseOk (queueJob (snd g)) x))"

section \<open>The generation client: theorems\<close>

subsection \<open>The substring search\<close>

lemma startsWith_iff: "startsWith s n \<longleftrightarrow> (\<exists>ss. s = n @ ss)"
  by (induction s n rule: startsWith.induct) auto

lemma includesStr_iff: "includesStr s n \<longleftrightarrow> (\<exists>ps ss. s = ps @ n @ ss)"
proof (induction s)
  case Nil
  then show ?case by (simp add: startsWith_iff)
next
  case (Cons x xs)
  show ?case
  proof
    assume "includesStr (x # xs) n"
    then consider "startsWith (x # xs) n" | "includesStr xs n" by auto
    then show "\<exists>ps ss. x # xs = ps @ n @ ss"
    proof cases
      case 1
      then obtain ss where "x # xs = n @ ss" by (auto simp: startsWith_iff)
      then have "x # xs = [] @ n @ ss" by simp
      then show ?thesis by blast
    next
      case 2
      then obtain ps ss where "xs = ps @ n @ ss" using Cons.IH by auto
      then have "x # xs = (x # ps) @ n @ ss" by simp
      then show ?thesis by blast
    qed
  next
    assume "\<exists>ps ss. x # xs = ps @ n @ ss"
    then obtain ps ss where e: "x # xs = ps @ n @ ss" by auto
    show "includesStr (x # xs) n"
    proof (cases ps)
      case Nil
      with e have "startsWith (x # xs) n" by (auto simp: startsWith_iff)
      then show ?thesis by simp
    next
      case (Cons p ps')
      with e have "xs = ps' @ n @ ss" by simp
      then have "includesStr xs n" using Cons.IH by blast
      then show ?thesis by simp
    qed
  qed
qed

lemma includes_lowered:
  "includesStr (toLowerCase t) w \<longleftrightarrow>
     (\<exists>before found after. t = before @ found @ after \<and> toLowerCase found = w)"
proof
  assume "includesStr (toLowerCase t) w"
  then obtain ps ss where e: "map lowerChar t = ps @ (w @ ss)"
    by (auto simp: includesStr_iff toLowerCase_def)
  from e obtain t1 t23 where a: "t = t1 @ t23" "ps = map lowerChar t1" "w @ ss = map lowerChar t23"
    unfolding map_eq_append_conv by blast
  from a(3) have "map lowerChar t23 = w @ ss" by simp
  then obtain t2 t3 where b: "t23 = t2 @ t3" "w = map lowerChar t2" "ss = map lowerChar t3"
    unfolding map_eq_append_conv by blast
  from a b show "\<exists>before found after. t = before @ found @ after \<and> toLowerCase found = w"
    unfolding toLowerCase_def by blast
next
  assume "\<exists>before found after. t = before @ found @ after \<and> toLowerCase found = w"
  then obtain b f a where "t = b @ f @ a" "map lowerChar f = w"
    by (auto simp: toLowerCase_def)
  then have "map lowerChar t = map lowerChar b @ w @ map lowerChar a" by simp
  then show "includesStr (toLowerCase t) w"
    unfolding includesStr_iff toLowerCase_def by blast
qed

subsection \<open>What the lowering does to the letters searched for\<close>

lemma lowerChar_eq:
  assumes "of_char l = (k::nat) + 32" "65 \<le> k" "k \<le> 90"
  shows "lowerChar c = l \<longleftrightarrow> (c = l \<or> of_char c = k)"
proof (cases "65 \<le> (of_char c :: nat) \<and> (of_char c :: nat) \<le> 90")
  case True
  then have "lowerChar c = char_of (of_char c + (32::nat))"
    by (simp add: lowerChar_def less_eq_char_def)
  moreover have "char_of (of_char c + (32::nat)) = l \<longleftrightarrow> of_char c + 32 = (of_char l :: nat)"
  proof -
    have "of_char c + (32::nat) < 256" using True by simp
    then have "take_bit 8 (of_char c + (32::nat)) = of_char c + 32"
      by (simp add: take_bit_nat_eq_self_iff)
    then show ?thesis by (simp add: char_of_eq_iff)
  qed
  moreover have "c \<noteq> l" using True assms by auto
  ultimately show ?thesis using assms by auto
next
  case False
  then have "lowerChar c = c" by (auto simp add: lowerChar_def less_eq_char_def)
  moreover have "of_char c \<noteq> k" using False assms by auto
  ultimately show ?thesis by auto
qed

lemma lowerChar_letters:
  "lowerChar c = CHR ''i'' \<longleftrightarrow> sameLetter c CHR ''i''"
  "lowerChar c = CHR ''s'' \<longleftrightarrow> sameLetter c CHR ''s''"
  "lowerChar c = CHR ''u'' \<longleftrightarrow> sameLetter c CHR ''u''"
  "lowerChar c = CHR ''e'' \<longleftrightarrow> sameLetter c CHR ''e''"
  "lowerChar c = CHR ''r'' \<longleftrightarrow> sameLetter c CHR ''r''"
  "lowerChar c = CHR ''o'' \<longleftrightarrow> sameLetter c CHR ''o''"
proof -
  have k: "of_char c = (73::nat) \<longleftrightarrow> c = CHR ''I''" "of_char c = (83::nat) \<longleftrightarrow> c = CHR ''S''"
    "of_char c = (85::nat) \<longleftrightarrow> c = CHR ''U''" "of_char c = (69::nat) \<longleftrightarrow> c = CHR ''E''"
    "of_char c = (82::nat) \<longleftrightarrow> c = CHR ''R''" "of_char c = (79::nat) \<longleftrightarrow> c = CHR ''O''"
    using of_char_eq_iff [of c "CHR ''I''", where ?'a = nat]
      of_char_eq_iff [of c "CHR ''S''", where ?'a = nat]
      of_char_eq_iff [of c "CHR ''U''", where ?'a = nat]
      of_char_eq_iff [of c "CHR ''E''", where ?'a = nat]
      of_char_eq_iff [of c "CHR ''R''", where ?'a = nat]
      of_char_eq_iff [of c "CHR ''O''", where ?'a = nat]
    by simp_all
  show "lowerChar c = CHR ''i'' \<longleftrightarrow> sameLetter c CHR ''i''"
    using lowerChar_eq [of "CHR ''i''" 73 c] k
    by (auto simp: sameLetter_def upperLetters_def lowerLetters_def)
  show "lowerChar c = CHR ''s'' \<longleftrightarrow> sameLetter c CHR ''s''"
    using lowerChar_eq [of "CHR ''s''" 83 c] k
    by (auto simp: sameLetter_def upperLetters_def lowerLetters_def)
  show "lowerChar c = CHR ''u'' \<longleftrightarrow> sameLetter c CHR ''u''"
    using lowerChar_eq [of "CHR ''u''" 85 c] k
    by (auto simp: sameLetter_def upperLetters_def lowerLetters_def)
  show "lowerChar c = CHR ''e'' \<longleftrightarrow> sameLetter c CHR ''e''"
    using lowerChar_eq [of "CHR ''e''" 69 c] k
    by (auto simp: sameLetter_def upperLetters_def lowerLetters_def)
  show "lowerChar c = CHR ''r'' \<longleftrightarrow> sameLetter c CHR ''r''"
    using lowerChar_eq [of "CHR ''r''" 82 c] k
    by (auto simp: sameLetter_def upperLetters_def lowerLetters_def)
  show "lowerChar c = CHR ''o'' \<longleftrightarrow> sameLetter c CHR ''o''"
    using lowerChar_eq [of "CHR ''o''" 79 c] k
    by (auto simp: sameLetter_def upperLetters_def lowerLetters_def)
qed

lemma lowers_to_word:
  "toLowerCase found = ''issue'' \<longleftrightarrow> list_all2 sameLetter found ''issue''"
  "toLowerCase found = ''error'' \<longleftrightarrow> list_all2 sameLetter found ''error''"
  by (auto simp: toLowerCase_def map_eq_Cons_conv list_all2_Cons2 lowerChar_letters)

lemma hasIssues_iff:
  "hasIssues t \<longleftrightarrow> containsIgnoringCase t ''issue'' \<or> containsIgnoringCase t ''error''"
  by (simp add: hasIssues_def includes_lowered containsIgnoringCase_def lowers_to_word)

text \<open>
  Claim C10, as the code has it. When the first block of the provider's answer is a
  text, \<open>validateComponent\<close> returns \<open>valid = False\<close> exactly when the text contains
  "issue" or "error", ignoring case, and then \<open>issues\<close> is the list of the whole text
  alone; otherwise \<open>valid\<close> is true and \<open>issues\<close> is empty. When the first block is not
  a text it returns \<open>valid = True\<close> with no issues. When the answer has no block at all,
  or the request is rejected, it returns nothing: it throws.
\<close>

theorem validateComponent_issue_or_error:
  "validateComponent (Message (TextBlock t # bs) i out) =
     Inr \<lparr>valid = \<not> (containsIgnoringCase t ''issue'' \<or> containsIgnoringCase t ''error''),
          issues = (if containsIgnoringCase t ''issue'' \<or> containsIgnoringCase t ''error''
                    then [t] else [])\<rparr>
   \<and> validateComponent (Message (OtherBlock # bs) i out) = Inr \<lparr>valid = True, issues = []\<rparr>
   \<and> validateComponent (Message [] i out) = Inl typeErrorOfUndefined
   \<and> validateComponent (Rejected e) = Inl e"
  by (simp add: validateComponent_def hasIssues_iff)

text \<open>
  The claim as stated (every answer that is not a text with one of the two words gives
  \<open>valid = True\<close> with no issues) does not hold: on an answer with an empty content
  array \<open>validateComponent\<close> throws a TypeError and returns no result.
\<close>

theorem validateComponent_empty_content_throws:
  "validateComponent (Message [] 7 0) = Inl typeErrorOfUndefined
   \<and> validateComponent (Message [] 7 0) \<noteq> Inr \<lparr>valid = True, issues = []\<rparr>"
  by (simp add: validateComponent_def)

lemma validateComponent_examples:
  "validateComponent (Message [TextBlock ''No ISSUES found''] 10 20) =
     Inr \<lparr>valid = False, issues = [''No ISSUES found'']\<rparr>"
  "validateComponent (Message [TextBlock ''Looks fine''] 10 20) =
     Inr \<lparr>valid = True, issues = []\<rparr>"
  by code_simp+

subsection \<open>The cache of generateComponent\<close>

lemma freshEntry_after_store:
  "freshEntry (sweep t (c(p \<mapsto> \<lparr>result = r, timestamp = t\<rparr>))) p now =
     (if now - t < ttl then Some \<lparr>result = r, timestamp = t\<rparr> else None)"
  by (simp add: freshEntry_def sweep_def ttl_def)

text \<open>
  Claim C5. Let the provider answer a request with a text and a token count that is not
  zero (the count of the request and of the answer, which the provider reports). A call
  of \<open>generateComponent\<close> with a prompt the cache does not hold then returns a token
  count that is not zero. A repeat with the same prompt, on the cache the first call
  left and less than the time to live (one hour) after the first call stored its entry,
  returns the code of the first call with \<open>tokensUsed = 0\<close>, whatever the provider
  would have answered. A repeat once the time to live has passed calls the provider
  again and returns a token count that is not zero.
\<close>

theorem generateComponent_cache:
  assumes unseen: "c prompt = None"
    and first: "resp = Message (TextBlock t # bs) i out" "0 < i + out"
    and again: "resp3 = Message (TextBlock t3 # bs3) i3 out3" "0 < i3 + out3"
    and within: "now2 - now' < ttl"
    and elapsed: "ttl \<le> now3 - now'"
  shows "\<exists>r1 c1 r3.
           generateComponent c prompt now now' resp = (Inr r1, c1)
         \<and> tokensUsed r1 \<noteq> 0
         \<and> generateComponent c1 prompt now2 now2' resp2 =
             (Inr \<lparr>code = code r1, tokensUsed = 0\<rparr>, c1)
         \<and> fst (generateComponent c1 prompt now3 now3' resp3) = Inr r3
         \<and> tokensUsed r3 \<noteq> 0"
proof -
  let ?c1 = "sweep now' (c(prompt \<mapsto> \<lparr>result = t, timestamp = now'\<rparr>))"
  let ?r1 = "\<lparr>code = t, tokensUsed = i + out\<rparr>"
  let ?r3 = "\<lparr>code = t3, tokensUsed = i3 + out3\<rparr>"
  have miss: "freshEntry c prompt now = None"
    using unseen by (simp add: freshEntry_def)
  have one: "generateComponent c prompt now now' resp = (Inr ?r1, ?c1)"
    using miss first(1) by (simp add: generateComponent_def)
  have hit: "freshEntry ?c1 prompt now2 = Some \<lparr>result = t, timestamp = now'\<rparr>"
    using within by (simp add: freshEntry_after_store)
  have two: "generateComponent ?c1 prompt now2 now2' resp2 =
      (Inr \<lparr>code = code ?r1, tokensUsed = 0\<rparr>, ?c1)"
    using hit by (simp add: generateComponent_def)
  have stale: "freshEntry ?c1 prompt now3 = None"
    using elapsed by (simp add: freshEntry_after_store)
  have three: "fst (generateComponent ?c1 prompt now3 now3' resp3) = Inr ?r3"
    using stale again(1) by (simp add: generateComponent_def)
  have pos: "tokensUsed ?r1 \<noteq> 0" "tokensUsed ?r3 \<noteq> 0"
    using first(2) again(2) by simp_all
  from one two three pos show ?thesis by blast
qed

theorem generateComponent_cache_witness:
  "(Map.empty :: request_cache) ''button'' = None
   \<and> (0::nat) < 12 + 30 \<and> (0::nat) < 12 + 28
   \<and> (2000::int) - 1000 < ttl \<and> ttl \<le> (3601000::int) - 1000
   \<and> (\<exists>r1 c1 r3.
         generateComponent Map.empty ''button'' 0 1000
           (Message [TextBlock ''<Button/>''] 12 30) = (Inr r1, c1)
       \<and> tokensUsed r1 \<noteq> 0
       \<and> generateComponent c1 ''button'' 2000 2500 (Rejected NonError) =
           (Inr \<lparr>code = code r1, tokensUsed = 0\<rparr>, c1)
       \<and> fst (generateComponent c1 ''button'' 3601000 3602000
           (Message [TextBlock ''<Btn/>''] 12 28)) = Inr r3
       \<and> tokensUsed r3 \<noteq> 0)"
proof -
  have a: "(Map.empty :: request_cache) ''button'' = None" by simp
  have b: "(0::nat) < 12 + 30" "(0::nat) < 12 + 28" by simp_all
  have w: "(2000::int) - 1000 < ttl" by (simp add: ttl_def)
  have e: "ttl \<le> (3601000::int) - 1000" by (simp add: ttl_def)
  show ?thesis
    using a b w e
      generateComponent_cache [OF a refl b(1) refl b(2) w e,
        where bs = "[]" and t = "''<Button/>''" and ?bs3.0 = "[]" and ?t3.0 = "''<Btn/>''"
          and now = 0 and ?now2' = 2500 and ?resp2.0 = "Rejected NonError" and ?now3' = 3602000]
    by blast
qed

section \<open>The queue service: lemmas\<close>

subsection \<open>Lookups and updates of the job table\<close>

lemma findUnique_mem: "findUnique jobs i = Some j \<Longrightarrow> j \<in> set jobs \<and> jobId j = i"
  by (auto simp: findUnique_def find_Some_iff)

lemma findUnique_None_iff: "findUnique jobs i = None \<longleftrightarrow> i \<notin> jobId ` set jobs"
  by (auto simp: findUnique_def find_None_iff)

lemma findUnique_distinct:
  "distinct (map jobId jobs) \<Longrightarrow> j \<in> set jobs \<Longrightarrow> findUnique jobs (jobId j) = Some j"
  by (induction jobs) (auto simp: findUnique_def)

lemma findUnique_append:
  "findUnique (jobs @ [n]) i =
     (case findUnique jobs i of Some j \<Rightarrow> Some j
      | None \<Rightarrow> if jobId n = i then Some n else None)"
  by (induction jobs) (auto simp: findUnique_def)

subsection \<open>The row findFirst returns\<close>

lemma runsBefore_trans: "runsBefore a b \<Longrightarrow> runsBefore b c \<Longrightarrow> runsBefore a c"
  by (auto simp: runsBefore_def)

lemma fold_best_mem:
  "fold (\<lambda>k best. if runsBefore k best then k else best) js j \<in> set (j # js)"
  by (induction js arbitrary: j) (auto split: if_splits)

lemma fold_best_least:
  "\<forall>x \<in> X. \<not> runsBefore x j \<Longrightarrow>
   \<forall>x \<in> X \<union> set (j # js). \<not> runsBefore x (fold (\<lambda>k best. if runsBefore k best then k else best) js j)"
proof (induction js arbitrary: j X)
  case Nil
  then show ?case by (auto simp: runsBefore_def)
next
  case (Cons k js)
  show ?case
  proof (cases "runsBefore k j")
    case True
    have "\<forall>x \<in> X \<union> {j}. \<not> runsBefore x k"
      using Cons.prems True runsBefore_trans by (auto simp: runsBefore_def)
    from Cons.IH [OF this] True show ?thesis by auto
  next
    case False
    have "\<forall>x \<in> X \<union> {k}. \<not> runsBefore x j"
      using Cons.prems False by auto
    from Cons.IH [OF this] False show ?thesis by (auto simp: runsBefore_def)
  qed
qed

lemma findFirst_mem: "findFirst jobs now = Some j \<Longrightarrow> j \<in> set jobs \<and> eligible now j"
proof -
  assume a: "findFirst jobs now = Some j"
  then obtain x xs where f: "filter (eligible now) jobs = x # xs"
    and j: "j = fold (\<lambda>k best. if runsBefore k best then k else best) xs x"
    by (auto simp: findFirst_def split: list.splits)
  have "j \<in> set (x # xs)" unfolding j by (rule fold_best_mem)
  then have "j \<in> set (filter (eligible now) jobs)" using f by simp
  then show ?thesis by simp
qed

lemma findFirst_best:
  assumes "findFirst jobs now = Some j" "k \<in> set jobs" "eligible now k"
  shows "\<not> runsBefore k j"
proof -
  from assms(1) obtain x xs where f: "filter (eligible now) jobs = x # xs"
    and j: "j = fold (\<lambda>k best. if runsBefore k best then k else best) xs x"
    by (auto simp: findFirst_def split: list.splits)
  have "\<forall>y \<in> {} \<union> set (x # xs). \<not> runsBefore y j"
    unfolding j by (rule fold_best_least) simp
  moreover have "k \<in> set (x # xs)" using assms(2,3) f [symmetric] by simp
  ultimately show ?thesis by blast
qed

lemma findFirst_None_iff: "findFirst jobs now = None \<longleftrightarrow> (\<forall>j \<in> set jobs. \<not> eligible now j)"
  by (auto simp: findFirst_def filter_empty_conv split: list.splits)
     (metis filter_empty_conv list.distinct(1))

lemma updateJob_found:
  "j \<in> set jobs \<Longrightarrow>
   updateJob jobs (jobId j) f = Inr (map (\<lambda>r. if jobId r = jobId j then f r else r) jobs)"
  by (cases "findUnique jobs (jobId j)") (auto simp: updateJob_def findUnique_None_iff)

lemma updateJob_missing:
  "findUnique jobs i = None \<Longrightarrow> updateJob jobs i f = Inl recordNotFound"
  by (simp add: updateJob_def)

lemma findUnique_map:
  "(\<And>r. jobId (f r) = jobId r) \<Longrightarrow>
   findUnique (map (\<lambda>r. if jobId r = i then f r else r) jobs) k =
     (if k = i then map_option f (findUnique jobs i) else findUnique jobs k)"
  by (induction jobs) (auto simp: findUnique_def)

lemma jobIds_map:
  "(\<And>r. jobId (f r) = jobId r) \<Longrightarrow>
   map jobId (map (\<lambda>r. if jobId r = i then f r else r) jobs) = map jobId jobs"
  by (induction jobs) auto

subsection \<open>The handlers leave the job table and the worker sets alone\<close>

lemma failGeneration_frame:
  "failGeneration env g e s = (r, s') \<Longrightarrow>
   queueJob (snd s') = queueJob (snd s) \<and> fst s' = fst s \<and> (\<exists>e'. r = Inl e')"
  by (auto simp: failGeneration_def split: sum.splits)

lemma executeJob_frame:
  assumes "executeJob env j s = (r, s')"
  shows "queueJob (snd s') = queueJob (snd s) \<and> processedJobs (fst s') = processedJobs (fst s)
       \<and> failedJobsCache (fst s') = failedJobsCache (fst s)
       \<and> processing (fst s') = processing (fst s)"
  using assms
  by (auto simp: executeJob_def handleAIGeneration_def handleAIImprovement_def
      handleAIValidation_def Let_def
      split: if_splits sum.splits prod.splits option.splits dest!: failGeneration_frame)


subsection \<open>What one tick writes\<close>

lemma claimJob_selected:
  "j \<in> set (queueJob d) \<Longrightarrow>
   claimJob now j (w, d) =
     Inr (w\<lparr>processedJobs := insert (jobId j) (processedJobs w)\<rparr>,
          d\<lparr>queueJob := map (\<lambda>r. if jobId r = jobId j
                                 then r\<lparr>status := ''processing'', startedAt := Some now\<rparr>
                                 else r) (queueJob d)\<rparr>)"
  by (simp add: claimJob_def updateJob_found)

lemma recordFailure_rows:
  assumes "jobId j \<in> jobId ` set (queueJob (snd s))"
  shows "queueJob (snd (recordFailure now j e s)) =
           map (\<lambda>r. if jobId r = jobId j
                     then (if attempts j + 1 < maxAttempts j
                           then r\<lparr>status := ''pending'', attempts := attempts j + 1,
                                  error := Some (errorMessageOf e), scheduledFor := now + 5000\<rparr>
                           else r\<lparr>status := ''failed'', attempts := attempts j + 1,
                                  error := Some (errorMessageOf e), completedAt := Some now\<rparr>)
                     else r) (queueJob (snd s))"
proof -
  from assms obtain k where k: "k \<in> set (queueJob (snd s))" "jobId k = jobId j" by auto
  show ?thesis
    using updateJob_found [OF k(1)] k(2)
    by (simp add: recordFailure_def Let_def)
qed

lemma recordFailure_worker:
  "processedJobs (fst (recordFailure now j e s)) = processedJobs (fst s)
   \<and> processing (fst (recordFailure now j e s)) = processing (fst s)
   \<and> requestCache (fst (recordFailure now j e s)) = requestCache (fst s)"
  by (simp add: recordFailure_def Let_def split: sum.splits)

lemma recordFailure_tables:
  "generation (snd (recordFailure now j e s)) = generation (snd s)
   \<and> component (snd (recordFailure now j e s)) = component (snd s)"
  by (simp add: recordFailure_def Let_def split: sum.splits)

lemma settleJob_rows:
  assumes "jobId j \<in> jobId ` set (queueJob (snd s))"
  shows "queueJob (snd (settleJob now j r s)) =
           map (\<lambda>row. if jobId row = jobId j
                     then (case r of
                             Inr u \<Rightarrow> row\<lparr>status := ''completed'', completedAt := Some now\<rparr>
                           | Inl e \<Rightarrow>
                               if attempts j + 1 < maxAttempts j
                               then row\<lparr>status := ''pending'', attempts := attempts j + 1,
                                  error := Some (errorMessageOf e), scheduledFor := now + 5000\<rparr>
                               else row\<lparr>status := ''failed'', attempts := attempts j + 1,
                                  error := Some (errorMessageOf e), completedAt := Some now\<rparr>)
                     else row) (queueJob (snd s))"
proof (cases r)
  case (Inl e)
  then show ?thesis using recordFailure_rows [OF assms] by (simp add: settleJob_def)
next
  case (Inr u)
  from assms obtain k where k: "k \<in> set (queueJob (snd s))" "jobId k = jobId j" by auto
  show ?thesis
    using Inr updateJob_found [OF k(1)] k(2) by (simp add: settleJob_def)
qed

lemma settleJob_worker:
  "processedJobs (fst (settleJob now j r s)) = processedJobs (fst s)
   \<and> requestCache (fst (settleJob now j r s)) = requestCache (fst s)"
  by (simp add: settleJob_def recordFailure_worker split: sum.splits)

lemma settleJob_tables:
  "generation (snd (settleJob now j r s)) = generation (snd s)
   \<and> component (snd (settleJob now j r s)) = component (snd s)"
  by (simp add: settleJob_def recordFailure_tables split: sum.splits)

lemma tick_selected:
  assumes "\<not> processing w" "findFirst (queueJob d) (tFind env) = Some j"
    "jobId j \<notin> processedJobs w"
  shows "processNextJob env (w, d) =
     (let x = executeJob env j
                (w\<lparr>processedJobs := insert (jobId j) (processedJobs w)\<rparr>,
                 d\<lparr>queueJob := map (\<lambda>r. if jobId r = jobId j
                      then r\<lparr>status := ''processing'', startedAt := Some (tClaim env)\<rparr>
                      else r) (queueJob d)\<rparr>);
          s3 = settleJob (tDone env) j (fst x) (snd x)
      in ((fst s3)\<lparr>processing := False\<rparr>, snd s3))"
proof -
  have m: "j \<in> set (queueJob d)" using assms(2) findFirst_mem by blast
  show ?thesis
    using assms
    by (simp add: processNextJob_def selectJob_def claimJob_selected [OF m] Let_def
        split: prod.splits)
qed


lemma afterClaim_selected:
  "j \<in> set (queueJob d) \<Longrightarrow>
   afterClaim now j (w, d) =
     (w\<lparr>processedJobs := insert (jobId j) (processedJobs w)\<rparr>,
      d\<lparr>queueJob := map (\<lambda>r. if jobId r = jobId j
                             then r\<lparr>status := ''processing'', startedAt := Some now\<rparr>
                             else r) (queueJob d)\<rparr>)"
  by (simp add: afterClaim_def claimJob_selected)

lemma tick_as_settle:
  assumes "\<not> processing w" "findFirst (queueJob d) (tFind env) = Some j"
    "jobId j \<notin> processedJobs w"
  shows "processNextJob env (w, d) =
     (let s3 = settleJob (tDone env) j (outcome env j (w, d))
                 (snd (executeJob env j (afterClaim (tClaim env) j (w, d))))
      in ((fst s3)\<lparr>processing := False\<rparr>, snd s3))"
proof -
  have m: "j \<in> set (queueJob d)" using assms(2) findFirst_mem by blast
  show ?thesis
    unfolding tick_selected [OF assms] outcome_def afterClaim_selected [OF m]
    by (simp add: Let_def)
qed

lemma tick_rows:
  assumes "\<not> processing w" "findFirst (queueJob d) (tFind env) = Some j"
    "jobId j \<notin> processedJobs w"
  shows "queueJob (snd (processNextJob env (w, d))) =
    map (\<lambda>row. if jobId row = jobId j
           then (case outcome env j (w, d) of
                   Inr u \<Rightarrow> row\<lparr>status := ''completed'', completedAt := Some (tDone env)\<rparr>
                 | Inl e \<Rightarrow>
                     if attempts j + 1 < maxAttempts j
                     then row\<lparr>status := ''pending'', attempts := attempts j + 1,
                        error := Some (errorMessageOf e), scheduledFor := tDone env + 5000\<rparr>
                     else row\<lparr>status := ''failed'', attempts := attempts j + 1,
                        error := Some (errorMessageOf e), completedAt := Some (tDone env)\<rparr>)
           else row)
      (map (\<lambda>r. if jobId r = jobId j
                 then r\<lparr>status := ''processing'', startedAt := Some (tClaim env)\<rparr>
                 else r) (queueJob d))"
proof -
  have m: "j \<in> set (queueJob d)" using assms(2) findFirst_mem by blast
  let ?s1 = "afterClaim (tClaim env) j (w, d)"
  obtain r s2 where x: "executeJob env j ?s1 = (r, s2)" by (cases "executeJob env j ?s1")
  have q: "queueJob (snd s2) = queueJob (snd ?s1)"
    using executeJob_frame [OF x] by simp
  have q1: "queueJob (snd ?s1) = map (\<lambda>r. if jobId r = jobId j
                 then r\<lparr>status := ''processing'', startedAt := Some (tClaim env)\<rparr>
                 else r) (queueJob d)"
    by (simp add: afterClaim_selected [OF m])
  have ids: "map jobId (queueJob (snd s2)) = map jobId (queueJob d)"
    unfolding q q1 by (rule jobIds_map) simp
  have "jobId j \<in> set (map jobId (queueJob (snd s2)))"
    unfolding ids using m by simp
  then have inn: "jobId j \<in> jobId ` set (queueJob (snd s2))" by simp
  show ?thesis
    unfolding tick_as_settle [OF assms] Let_def
    using settleJob_rows [OF inn, of "tDone env" "outcome env j (w, d)"] x q q1
    by simp
qed

lemma findUnique_map_any:
  "(\<And>r. jobId (h r) = jobId r) \<Longrightarrow>
   findUnique (map h jobs) k = map_option h (findUnique jobs k)"
  by (induction jobs) (auto simp: findUnique_def)

lemma tick_lookup:
  assumes "\<not> processing w" "findFirst (queueJob d) (tFind env) = Some j"
    "jobId j \<notin> processedJobs w"
  shows "findUnique (queueJob (snd (processNextJob env (w, d)))) k =
    map_option
      (\<lambda>row. if jobId row = jobId j
           then (case outcome env j (w, d) of
                   Inr u \<Rightarrow> row\<lparr>status := ''completed'', startedAt := Some (tClaim env),
                              completedAt := Some (tDone env)\<rparr>
                 | Inl e \<Rightarrow>
                     if attempts j + 1 < maxAttempts j
                     then row\<lparr>status := ''pending'', startedAt := Some (tClaim env),
                        attempts := attempts j + 1,
                        error := Some (errorMessageOf e), scheduledFor := tDone env + 5000\<rparr>
                     else row\<lparr>status := ''failed'', startedAt := Some (tClaim env),
                        attempts := attempts j + 1,
                        error := Some (errorMessageOf e), completedAt := Some (tDone env)\<rparr>)
           else row)
      (findUnique (queueJob d) k)"
proof -
  let ?G = "\<lambda>r. if jobId r = jobId j
                 then r\<lparr>status := ''processing'', startedAt := Some (tClaim env)\<rparr>
                 else r"
  let ?F = "\<lambda>row. if jobId row = jobId j
           then (case outcome env j (w, d) of
                   Inr u \<Rightarrow> row\<lparr>status := ''completed'', completedAt := Some (tDone env)\<rparr>
                 | Inl e \<Rightarrow>
                     if attempts j + 1 < maxAttempts j
                     then row\<lparr>status := ''pending'', attempts := attempts j + 1,
                        error := Some (errorMessageOf e), scheduledFor := tDone env + 5000\<rparr>
                     else row\<lparr>status := ''failed'', attempts := attempts j + 1,
                        error := Some (errorMessageOf e), completedAt := Some (tDone env)\<rparr>)
           else row"
  have g: "findUnique (map ?G (queueJob d)) k = map_option ?G (findUnique (queueJob d) k)"
    by (rule findUnique_map_any) simp
  have f: "findUnique (map ?F (map ?G (queueJob d))) k =
      map_option ?F (findUnique (map ?G (queueJob d)) k)"
    by (rule findUnique_map_any) (simp split: sum.splits)
  show ?thesis
    unfolding tick_rows [OF assms] f g
    by (cases "findUnique (queueJob d) k"; cases "outcome env j (w, d)") simp_all
qed

lemma tick_row:
  assumes "distinct (map jobId (queueJob d))"
    "\<not> processing w" "findFirst (queueJob d) (tFind env) = Some j"
    "jobId j \<notin> processedJobs w"
  shows "findUnique (queueJob (snd (processNextJob env (w, d)))) (jobId j) =
    Some (case outcome env j (w, d) of
            Inr u \<Rightarrow> j\<lparr>status := ''completed'', startedAt := Some (tClaim env),
                       completedAt := Some (tDone env)\<rparr>
          | Inl e \<Rightarrow>
              if attempts j + 1 < maxAttempts j
              then j\<lparr>status := ''pending'', startedAt := Some (tClaim env),
                     attempts := attempts j + 1,
                     error := Some (errorMessageOf e), scheduledFor := tDone env + 5000\<rparr>
              else j\<lparr>status := ''failed'', startedAt := Some (tClaim env),
                     attempts := attempts j + 1,
                     error := Some (errorMessageOf e), completedAt := Some (tDone env)\<rparr>)"
proof -
  have m: "j \<in> set (queueJob d)" using assms(3) findFirst_mem by blast
  have u: "findUnique (queueJob d) (jobId j) = Some j"
    using assms(1) m by (rule findUnique_distinct)
  show ?thesis
    unfolding tick_lookup [OF assms(2-4)] u by simp
qed

lemma tick_other_rows:
  assumes "\<not> processing w" "findFirst (queueJob d) (tFind env) = Some j"
    "jobId j \<notin> processedJobs w" "k \<noteq> jobId j"
  shows "findUnique (queueJob (snd (processNextJob env (w, d)))) k = findUnique (queueJob d) k"
proof (cases "findUnique (queueJob d) k")
  case None
  then show ?thesis unfolding tick_lookup [OF assms(1-3)] by simp
next
  case (Some r)
  then have "jobId r = k" using findUnique_mem by blast
  then show ?thesis unfolding tick_lookup [OF assms(1-3)] using Some assms(4) by simp
qed

lemma tick_ids:
  "map jobId (queueJob (snd (processNextJob env s))) = map jobId (queueJob (snd s))"
proof (cases "\<not> processing (fst s) \<and> (\<exists>j. selectJob (tFind env) s = Some j)")
  case True
  then obtain j where j: "selectJob (tFind env) s = Some j" and p: "\<not> processing (fst s)" by blast
  from j have f: "findFirst (queueJob (snd s)) (tFind env) = Some j" "jobId j \<notin> processedJobs (fst s)"
    by (auto simp: selectJob_def split: option.splits if_splits)
  show ?thesis
    using tick_rows [of "fst s" "snd s" env j, OF p f]
    by (cases "outcome env j (fst s, snd s)") (simp_all add: jobIds_map)
next
  case False
  then show ?thesis
    by (auto simp: processNextJob_def split: option.splits)
qed

lemma tick_skipped:
  "processing (fst s) \<or> selectJob (tFind env) s = None \<Longrightarrow> processNextJob env s = s"
  by (cases s) (auto simp: processNextJob_def)

subsection \<open>The example states\<close>

lemma findFirst_single:
  "findFirst [j] now = (if eligible now j then Some j else None)"
  by (simp add: findFirst_def)

lemma example_select:
  "findFirst (queueJob (dbWith [pendingJob i ty n])) (tFind envRejected) = Some (pendingJob i ty n)"
  "findFirst (queueJob (dbWith [pendingJob i ty n])) (tFind envAnswered) = Some (pendingJob i ty n)"
  by (simp_all add: findFirst_single eligible_def dbWith_def pendingJob_def envRejected_def envAnswered_def)

lemma example_outcome_rejected:
  "outcome envRejected (pendingJob i ''ai_generation'' n) (worker0, dbWith [pendingJob i ''ai_generation'' n])
     = Inl failedToGenerate"
  by (simp add: outcome_def afterClaim_selected dbWith_def executeJob_def handleAIGeneration_def
      pendingJob_def generateComponent_def freshEntry_def worker0_def envRejected_def
      failGeneration_def updateRow_def)

subsection \<open>Unique ids\<close>

lemma distinct_ids_eq:
  "distinct (map jobId jobs) \<Longrightarrow> a \<in> set jobs \<Longrightarrow> b \<in> set jobs \<Longrightarrow> jobId a = jobId b \<Longrightarrow> a = b"
  by (meson distinct_map inj_onD)


section \<open>The claims about the queue service\<close>

lemma unknown_type_outcome:
  assumes "jobType j \<noteq> ''ai_generation''" "jobType j \<noteq> ''ai_improvement''"
    "jobType j \<noteq> ''ai_validation''"
  shows "executeJob env j s = (Inr (), s)"
  using assms by (simp add: executeJob_def)

lemma tick_tables:
  assumes "\<not> processing w" "findFirst (queueJob d) (tFind env) = Some j"
    "jobId j \<notin> processedJobs w"
  shows "generation (snd (processNextJob env (w, d))) =
           generation (snd (snd (executeJob env j (afterClaim (tClaim env) j (w, d)))))
       \<and> component (snd (processNextJob env (w, d))) =
           component (snd (snd (executeJob env j (afterClaim (tClaim env) j (w, d)))))"
  unfolding tick_as_settle [OF assms] Let_def by (simp add: settleJob_tables)

text \<open>
  Claim C2, as the code has it. Let a tick select a job whose type is none of the three
  the executor knows. \<^verbatim>\<open>executeJob\<close> logs the type and returns; the tick then marks
  the job completed. After the tick the row has status completed, \<open>startedAt\<close> and
  \<open>completedAt\<close> set, and its error and attempts as they were; the generation and
  component tables are as they were.
\<close>

theorem unknown_type_completes:
  assumes "distinct (map jobId (queueJob d))"
    and "\<not> processing w"
    and "findFirst (queueJob d) (tFind env) = Some j"
    and "jobId j \<notin> processedJobs w"
    and "jobType j \<noteq> ''ai_generation''" "jobType j \<noteq> ''ai_improvement''"
      "jobType j \<noteq> ''ai_validation''"
  shows "outcome env j (w, d) = Inr ()
       \<and> findUnique (queueJob (snd (processNextJob env (w, d)))) (jobId j) =
           Some (j\<lparr>status := ''completed'', startedAt := Some (tClaim env),
                   completedAt := Some (tDone env)\<rparr>)
       \<and> generation (snd (processNextJob env (w, d))) = generation d
       \<and> component (snd (processNextJob env (w, d))) = component d"
proof -
  have m: "j \<in> set (queueJob d)" using assms(3) findFirst_mem by blast
  have o: "outcome env j (w, d) = Inr ()"
    by (simp add: outcome_def unknown_type_outcome [OF assms(5-7)])
  have r: "findUnique (queueJob (snd (processNextJob env (w, d)))) (jobId j) =
           Some (j\<lparr>status := ''completed'', startedAt := Some (tClaim env),
                   completedAt := Some (tDone env)\<rparr>)"
    using tick_row [OF assms(1-4)] o by simp
  have t: "generation (snd (processNextJob env (w, d))) = generation d"
    "component (snd (processNextJob env (w, d))) = component d"
    using tick_tables [OF assms(2-4)]
    by (simp_all add: unknown_type_outcome [OF assms(5-7)] afterClaim_selected [OF m])
  from o r t show ?thesis by simp
qed

lemma example_facts:
  "distinct (map jobId (queueJob (dbWith [pendingJob i ty n])))"
  "\<not> processing worker0"
  "x \<notin> processedJobs worker0"
  "jobId (pendingJob i ty n) = i"
  "jobType (pendingJob i ty n) = ty"
  "attempts (pendingJob i ty n) = n"
  "maxAttempts (pendingJob i ty n) = 3"
  "error (pendingJob i ty n) = None"
  "tClaim envRejected = 11" "tDone envRejected = 14"
  "tClaim envAnswered = 11" "tDone envAnswered = 14"
  by (simp_all add: dbWith_def worker0_def pendingJob_def envRejected_def envAnswered_def)

theorem unknown_type_completes_witness:
  "distinct (map jobId (queueJob (dbWith [pendingJob ''u1'' ''send_email'' 0])))
   \<and> \<not> processing worker0
   \<and> findFirst (queueJob (dbWith [pendingJob ''u1'' ''send_email'' 0])) (tFind envAnswered)
       = Some (pendingJob ''u1'' ''send_email'' 0)
   \<and> jobId (pendingJob ''u1'' ''send_email'' 0) \<notin> processedJobs worker0
   \<and> jobType (pendingJob ''u1'' ''send_email'' 0) \<noteq> ''ai_generation''
   \<and> jobType (pendingJob ''u1'' ''send_email'' 0) \<noteq> ''ai_improvement''
   \<and> jobType (pendingJob ''u1'' ''send_email'' 0) \<noteq> ''ai_validation''
   \<and> outcome envAnswered (pendingJob ''u1'' ''send_email'' 0)
        (worker0, dbWith [pendingJob ''u1'' ''send_email'' 0]) = Inr ()
   \<and> findUnique (queueJob (snd (processNextJob envAnswered
        (worker0, dbWith [pendingJob ''u1'' ''send_email'' 0])))) ''u1'' =
      Some ((pendingJob ''u1'' ''send_email'' 0)
         \<lparr>status := ''completed'', startedAt := Some 11, completedAt := Some 14\<rparr>)"
proof -
  let ?j = "pendingJob ''u1'' ''send_email'' 0"
  have h3: "findFirst (queueJob (dbWith [?j])) (tFind envAnswered) = Some ?j"
    by (rule example_select)
  have h5: "jobType ?j \<noteq> ''ai_generation''" "jobType ?j \<noteq> ''ai_improvement''"
    "jobType ?j \<noteq> ''ai_validation''"
    by (simp_all add: example_facts)
  show ?thesis
    using h3 h5
      unknown_type_completes [OF example_facts(1) example_facts(2) h3 example_facts(3) h5]
    by (simp add: example_facts)
qed

text \<open>
  The claim as the specification states it (the job ends failed, with an error) does not
  hold: a job of type \<open>send_email\<close> ends completed, with no error.
\<close>

theorem unknown_type_counterexample:
  "jobType (pendingJob ''u1'' ''send_email'' 0) \<noteq> ''ai_generation''
   \<and> jobType (pendingJob ''u1'' ''send_email'' 0) \<noteq> ''ai_improvement''
   \<and> jobType (pendingJob ''u1'' ''send_email'' 0) \<noteq> ''ai_validation''
   \<and> (\<exists>row. findUnique (queueJob (snd (processNextJob envAnswered
          (worker0, dbWith [pendingJob ''u1'' ''send_email'' 0])))) ''u1'' = Some row
        \<and> status row = ''completed'' \<and> status row \<noteq> ''failed'' \<and> error row = None)"
proof -
  let ?j = "pendingJob ''u1'' ''send_email'' 0"
  have h3: "findFirst (queueJob (dbWith [?j])) (tFind envAnswered) = Some ?j"
    by (rule example_select)
  have h5: "jobType ?j \<noteq> ''ai_generation''" "jobType ?j \<noteq> ''ai_improvement''"
    "jobType ?j \<noteq> ''ai_validation''"
    by (simp_all add: example_facts)
  have o: "outcome envAnswered ?j (worker0, dbWith [?j]) = Inr ()"
    by (simp add: outcome_def unknown_type_outcome [OF h5])
  have "findUnique (queueJob (snd (processNextJob envAnswered (worker0, dbWith [?j])))) ''u1'' =
      Some (?j\<lparr>status := ''completed'', startedAt := Some 11, completedAt := Some 14\<rparr>)"
    using tick_row [OF example_facts(1) example_facts(2) h3 example_facts(3)] o
    by (simp add: example_facts)
  then show ?thesis using h5 by (simp add: example_facts)
qed

lemma transient_failure_requeues:
  assumes "distinct (map jobId (queueJob d))"
    and "\<not> processing w"
    and "findFirst (queueJob d) (tFind env) = Some j"
    and "jobId j \<notin> processedJobs w"
    and "outcome env j (w, d) = Inl e"
    and "attempts j + 1 < maxAttempts j"
  shows "findUnique (queueJob (snd (processNextJob env (w, d)))) (jobId j) =
           Some (j\<lparr>status := ''pending'', startedAt := Some (tClaim env),
                   attempts := attempts j + 1, error := Some (errorMessageOf e),
                   scheduledFor := tDone env + 5000\<rparr>)"
  using tick_row [OF assms(1-4)] assms(5,6) by simp

lemma example_requeued:
  assumes "n + 1 < 3"
  shows "findUnique (queueJob (snd (processNextJob envRejected
            (worker0, dbWith [pendingJob i ''ai_generation'' n])))) i =
         Some ((pendingJob i ''ai_generation'' n)
            \<lparr>status := ''pending'', startedAt := Some 11, attempts := n + 1,
             error := Some ''Failed to generate component'', scheduledFor := 5014\<rparr>)"
proof -
  let ?j = "pendingJob i ''ai_generation'' n"
  have d: "distinct (map jobId (queueJob (dbWith [?j])))" by (rule example_facts)
  have s: "findFirst (queueJob (dbWith [?j])) (tFind envRejected) = Some ?j"
    by (rule example_select)
  have p: "jobId ?j \<notin> processedJobs worker0" by (rule example_facts)
  have o: "outcome envRejected ?j (worker0, dbWith [?j]) = Inl failedToGenerate"
    by (rule example_outcome_rejected)
  have a: "attempts ?j + 1 < maxAttempts ?j" using assms by (simp add: example_facts)
  show ?thesis
    using transient_failure_requeues [OF d example_facts(2) s p o a]
    by (simp add: example_facts errorMessageOf_def failedToGenerate_def)
qed

text \<open>
  Claim C3 fails on the code. A job that fails with attempts 0 and a job that fails with
  attempts 1 (of 3 allowed) both return to pending, with attempts incremented and
  \<open>scheduledFor\<close> later than the clock at the failure; but the delay is 5000 ms for
  both: it does not grow with the attempt count.
\<close>

theorem retry_delay_is_fixed:
  "(\<exists>row. findUnique (queueJob (snd (processNextJob envRejected
        (worker0, dbWith [pendingJob ''j1'' ''ai_generation'' 0])))) ''j1'' = Some row
      \<and> status row = ''pending'' \<and> attempts row = 1
      \<and> scheduledFor row - tDone envRejected = 5000)
   \<and> (\<exists>row. findUnique (queueJob (snd (processNextJob envRejected
        (worker0, dbWith [pendingJob ''j1'' ''ai_generation'' 1])))) ''j1'' = Some row
      \<and> status row = ''pending'' \<and> attempts row = 2
      \<and> scheduledFor row - tDone envRejected = 5000)"
  by (simp add: example_requeued example_facts)

lemma example_claim:
  "claimJob now (pendingJob i ty n) (w, dbWith [pendingJob i ty n]) =
     Inr (w\<lparr>processedJobs := insert i (processedJobs w)\<rparr>,
          dbWith [(pendingJob i ty n)\<lparr>status := ''processing'', startedAt := Some now\<rparr>])"
  by (simp add: claimJob_def updateJob_def findUnique_def dbWith_def pendingJob_def)

lemma example_claim_again:
  "claimJob now (pendingJob i ty n)
     (w, dbWith [(pendingJob i ty n)\<lparr>status := ''processing'', startedAt := Some t\<rparr>]) =
     Inr (w\<lparr>processedJobs := insert i (processedJobs w)\<rparr>,
          dbWith [(pendingJob i ty n)\<lparr>status := ''processing'', startedAt := Some now\<rparr>])"
  by (simp add: claimJob_def updateJob_def findUnique_def dbWith_def pendingJob_def)

text \<open>
  Claim C1 fails on the code: the claim is a \<^verbatim>\<open>findFirst\<close> and a separate
  \<^verbatim>\<open>update\<close>, and the update does not ask that the row still be pending. Two
  workers A and B share a store with one pending job. A's \<^verbatim>\<open>findFirst\<close> and B's
  \<^verbatim>\<open>findFirst\<close> both run before either update, and both select the job; A's update
  succeeds, and B's update, on the store A's update left, succeeds as well. Both workers
  hold the job in \<^verbatim>\<open>processedJobs\<close> and go on to execute it.
\<close>

theorem two_workers_claim_one_job:
  "\<exists>wA' d1 wB' d2.
      selectJob 10 (workerA, dbWith [pendingJob ''j1'' ''ai_generation'' 0]) =
        Some (pendingJob ''j1'' ''ai_generation'' 0)
    \<and> selectJob 10 (workerB, dbWith [pendingJob ''j1'' ''ai_generation'' 0]) =
        Some (pendingJob ''j1'' ''ai_generation'' 0)
    \<and> claimJob 11 (pendingJob ''j1'' ''ai_generation'' 0)
        (workerA, dbWith [pendingJob ''j1'' ''ai_generation'' 0]) = Inr (wA', d1)
    \<and> claimJob 12 (pendingJob ''j1'' ''ai_generation'' 0) (workerB, d1) = Inr (wB', d2)
    \<and> ''j1'' \<in> processedJobs wA' \<and> ''j1'' \<in> processedJobs wB'
    \<and> map_option startedAt (findUnique (queueJob d1) ''j1'') = Some (Some 11)
    \<and> map_option startedAt (findUnique (queueJob d2) ''j1'') = Some (Some 12)"
proof -
  let ?j = "pendingJob ''j1'' ''ai_generation'' 0"
  have s: "selectJob 10 (workerA, dbWith [?j]) = Some ?j" "selectJob 10 (workerB, dbWith [?j]) = Some ?j"
    by (simp_all add: selectJob_def findFirst_single eligible_def dbWith_def pendingJob_def
        workerA_def workerB_def worker0_def)
  have a: "claimJob 11 ?j (workerA, dbWith [?j]) =
      Inr (workerA\<lparr>processedJobs := insert ''j1'' (processedJobs workerA)\<rparr>,
           dbWith [?j\<lparr>status := ''processing'', startedAt := Some 11\<rparr>])"
    by (rule example_claim)
  have b: "claimJob 12 ?j (workerB, dbWith [?j\<lparr>status := ''processing'', startedAt := Some 11\<rparr>]) =
      Inr (workerB\<lparr>processedJobs := insert ''j1'' (processedJobs workerB)\<rparr>,
           dbWith [?j\<lparr>status := ''processing'', startedAt := Some 12\<rparr>])"
    by (rule example_claim_again)
  have f: "map_option startedAt (findUnique (queueJob
        (dbWith [?j\<lparr>status := ''processing'', startedAt := Some 11\<rparr>])) ''j1'') = Some (Some 11)"
    "map_option startedAt (findUnique (queueJob
        (dbWith [?j\<lparr>status := ''processing'', startedAt := Some 12\<rparr>])) ''j1'') = Some (Some 12)"
    by (simp_all add: findUnique_def dbWith_def pendingJob_def)
  show ?thesis
    using s a b f by (intro exI conjI) (assumption | simp)+
qed

lemma retryJob_throws:
  assumes "findUnique (queueJob (snd s)) i = None
         \<or> (\<exists>j. findUnique (queueJob (snd s)) i = Some j \<and> status j \<noteq> ''failed'')"
  shows "retryJob i now s = Inl notFoundOrNotFailed"
  using assms by (auto simp: retryJob_def)

lemma retryJob_resets:
  assumes "findUnique (queueJob (snd s)) i = Some j" "status j = ''failed''"
  shows "retryJob i now s =
           Inr ((fst s)\<lparr>processedJobs := processedJobs (fst s) - {i}\<rparr>,
                (snd s)\<lparr>queueJob :=
                   map (\<lambda>r. if jobId r = i
                             then r\<lparr>status := ''pending'', attempts := 0, error := None,
                                    scheduledFor := now, startedAt := None,
                                    completedAt := None\<rparr>
                             else r) (queueJob (snd s))\<rparr>)"
  using assms by (simp add: retryJob_def updateJob_def)

text \<open>
  Claim C8. \<open>retryJob\<close> throws when no job has the id or when the job's status is not
  failed, and the state is then as it was; the code throws one error for both cases,
  with the message "Job not found or not in failed state". On a job whose status is
  failed it sets the status to pending and the attempts to 0, and clears the error,
  \<open>startedAt\<close> and \<open>completedAt\<close> (and sets \<open>scheduledFor\<close> to the clock).
\<close>

theorem retryJob_failed_only:
  "(findUnique (queueJob (snd s)) i = None
      \<or> (\<exists>j. findUnique (queueJob (snd s)) i = Some j \<and> status j \<noteq> ''failed'')
    \<longrightarrow> retryJob i now s = Inl notFoundOrNotFailed \<and> step dflt (RetryJob i now) s = s)
   \<and> (\<forall>j. findUnique (queueJob (snd s)) i = Some j \<and> status j = ''failed''
    \<longrightarrow> (\<exists>s'. retryJob i now s = Inr s' \<and> step dflt (RetryJob i now) s = s'
          \<and> findUnique (queueJob (snd s')) i =
              Some (j\<lparr>status := ''pending'', attempts := 0, error := None,
                      scheduledFor := now, startedAt := None, completedAt := None\<rparr>)))"
proof (intro conjI impI allI)
  assume a: "findUnique (queueJob (snd s)) i = None
      \<or> (\<exists>j. findUnique (queueJob (snd s)) i = Some j \<and> status j \<noteq> ''failed'')"
  show "retryJob i now s = Inl notFoundOrNotFailed" using a by (rule retryJob_throws)
  then show "step dflt (RetryJob i now) s = s" by (simp add: step_def)
next
  fix j
  assume a: "findUnique (queueJob (snd s)) i = Some j \<and> status j = ''failed''"
  let ?f = "\<lambda>r. r\<lparr>status := ''pending'', attempts := 0, error := None,
                   scheduledFor := now, startedAt := None, completedAt := None\<rparr>"
  let ?s' = "((fst s)\<lparr>processedJobs := processedJobs (fst s) - {i}\<rparr>,
              (snd s)\<lparr>queueJob := map (\<lambda>r. if jobId r = i then ?f r else r) (queueJob (snd s))\<rparr>)"
  have r: "retryJob i now s = Inr ?s'" using a retryJob_resets by simp
  have "findUnique (map (\<lambda>r. if jobId r = i then ?f r else r) (queueJob (snd s))) i =
      map_option ?f (findUnique (queueJob (snd s)) i)"
    using findUnique_map [of ?f i "queueJob (snd s)" i] by simp
  then have u: "findUnique (queueJob (snd ?s')) i = Some (?f j)" using a by simp
  have st: "step dflt (RetryJob i now) s = ?s'" using r by (simp add: step_def)
  from r st u show "\<exists>s'. retryJob i now s = Inr s' \<and> step dflt (RetryJob i now) s = s'
          \<and> findUnique (queueJob (snd s')) i = Some (?f j)"
    by blast
qed

lemma example_lookup:
  "findUnique (queueJob (dbWith [pendingJob ''p1'' ''ai_generation'' 0, failedJob ''f1''])) ''p1''
     = Some (pendingJob ''p1'' ''ai_generation'' 0)"
  "findUnique (queueJob (dbWith [pendingJob ''p1'' ''ai_generation'' 0, failedJob ''f1''])) ''f1''
     = Some (failedJob ''f1'')"
  "findUnique (queueJob (dbWith [pendingJob ''p1'' ''ai_generation'' 0, failedJob ''f1''])) ''zz''
     = None"
  "status (pendingJob ''p1'' ''ai_generation'' 0) \<noteq> ''failed''"
  "status (failedJob ''f1'') = ''failed''"
  by (simp_all add: findUnique_def dbWith_def pendingJob_def failedJob_def)

theorem retryJob_failed_only_witness:
  "retryJob ''zz'' 20
      (worker0, dbWith [pendingJob ''p1'' ''ai_generation'' 0, failedJob ''f1''])
     = Inl notFoundOrNotFailed
   \<and> retryJob ''p1'' 20
      (worker0, dbWith [pendingJob ''p1'' ''ai_generation'' 0, failedJob ''f1''])
     = Inl notFoundOrNotFailed
   \<and> (\<exists>s'. retryJob ''f1'' 20
          (worker0, dbWith [pendingJob ''p1'' ''ai_generation'' 0, failedJob ''f1'']) = Inr s'
        \<and> findUnique (queueJob (snd s')) ''f1'' =
            Some ((failedJob ''f1'')\<lparr>status := ''pending'', attempts := 0, error := None,
                      scheduledFor := 20, startedAt := None, completedAt := None\<rparr>))"
proof -
  let ?s = "(worker0, dbWith [pendingJob ''p1'' ''ai_generation'' 0, failedJob ''f1''])"
  have a: "retryJob ''zz'' 20 ?s = Inl notFoundOrNotFailed"
    using retryJob_failed_only [of ?s "''zz''" 20 3] example_lookup(3) by simp
  have b: "retryJob ''p1'' 20 ?s = Inl notFoundOrNotFailed"
    using retryJob_failed_only [of ?s "''p1''" 20 3] example_lookup(1,4) by simp
  have c: "\<exists>s'. retryJob ''f1'' 20 ?s = Inr s'
        \<and> findUnique (queueJob (snd s')) ''f1'' =
            Some ((failedJob ''f1'')\<lparr>status := ''pending'', attempts := 0, error := None,
                      scheduledFor := 20, startedAt := None, completedAt := None\<rparr>)"
    using retryJob_failed_only [of ?s "''f1''" 20 3] example_lookup(2,5) by auto
  from a b c show ?thesis by blast
qed

section \<open>Several instances on one store: lemmas\<close>

subsection \<open>What one step does\<close>

text \<open>
  \<open>act_effect\<close> lists what a step can do to the job table and to the instance that
  takes it: nothing to the table; a new row at its end; the read of a tick; its update
  to processing; its last write; the read of a \<^verbatim>\<open>retryJob\<close>; its write.
\<close>

lemma updateJob_Inr:
  "updateJob jobs k f = Inr jobs' \<Longrightarrow> jobs' = map (\<lambda>r. if jobId r = k then f r else r) jobs"
  by (auto simp: updateJob_def split: option.splits)

lemma settleJob_missing:
  assumes "jobId j \<notin> jobId ` set (queueJob (snd s))"
  shows "queueJob (snd (settleJob now j r s)) = queueJob (snd s)"
proof -
  have "\<And>f. updateJob (queueJob (snd s)) (jobId j) f = Inl recordNotFound"
    using assms by (simp add: updateJob_missing findUnique_None_iff)
  then show ?thesis
    by (simp add: settleJob_def recordFailure_def Let_def split: sum.splits)
qed

lemma advance_Idle:
  assumes "tickPhase x = Idle" "advance env (x, d) = (x', d')"
  shows "d' = d \<and> retrying x' = retrying x
       \<and> processedJobs (self x') = processedJobs (self x)
       \<and> (tickPhase x' = Idle
          \<or> (\<exists>j. tickPhase x' = Found j \<and> findFirst (queueJob d) (tFind env) = Some j
                 \<and> jobId j \<notin> processedJobs (self x)))"
  using assms
  by (auto simp: advance_def selectJob_def split: if_splits option.splits)

lemma advance_Found:
  assumes "tickPhase x = Found j" "advance env (x, d) = (x', d')"
  shows "retrying x' = retrying x
       \<and> ((tickPhase x' = Idle \<and> d' = d \<and> processedJobs (self x') = processedJobs (self x))
          \<or> (tickPhase x' = Claimed j
             \<and> queueJob d' = map (\<lambda>r. if jobId r = jobId j
                   then r\<lparr>status := ''processing'', startedAt := Some (tClaim env)\<rparr>
                   else r) (queueJob d)
             \<and> processedJobs (self x') = insert (jobId j) (processedJobs (self x))))"
  using assms
  by (auto simp: advance_def claimJob_def split: sum.splits dest!: updateJob_Inr)

lemma advance_Claimed:
  assumes "tickPhase x = Claimed j" "advance env (x, d) = (x', d')"
  shows "retrying x' = retrying x \<and> queueJob d' = queueJob d
       \<and> processedJobs (self x') = processedJobs (self x)
       \<and> (\<exists>r. tickPhase x' = Executed j r)"
proof -
  obtain r s2 where e: "executeJob env j (self x, d) = (r, s2)"
    by (cases "executeJob env j (self x, d)")
  have "advance env (x, d) = (x\<lparr>self := fst s2, tickPhase := Executed j r\<rparr>, snd s2)"
    using assms(1) e by (simp add: advance_def Let_def)
  then have x': "x' = x\<lparr>self := fst s2, tickPhase := Executed j r\<rparr>" and d': "d' = snd s2"
    using assms(2) by simp_all
  show ?thesis unfolding x' d' using executeJob_frame [OF e] by simp
qed

lemma advance_Executed:
  assumes "tickPhase x = Executed j r" "advance env (x, d) = (x', d')"
  shows "retrying x' = retrying x \<and> tickPhase x' = Idle
       \<and> processedJobs (self x') = processedJobs (self x)
       \<and> queueJob d' = queueJob (snd (settleJob (tDone env) j r (self x, d)))"
proof -
  let ?s3 = "settleJob (tDone env) j r (self x, d)"
  have "advance env (x, d) = (x\<lparr>self := (fst ?s3)\<lparr>processing := False\<rparr>, tickPhase := Idle\<rparr>, snd ?s3)"
    using assms(1) by (simp add: advance_def Let_def)
  then have x': "x' = x\<lparr>self := (fst ?s3)\<lparr>processing := False\<rparr>, tickPhase := Idle\<rparr>"
    and d': "d' = snd ?s3"
    using assms(2) by simp_all
  show ?thesis unfolding x' d' using settleJob_worker [of "tDone env" j r "(self x, d)"] by simp
qed

lemma retryRead_effect:
  assumes "retryRead i (x, d) = (x', d')"
  shows "d' = d \<and> self x' = self x \<and> tickPhase x' = tickPhase x
       \<and> (retrying x' = retrying x
          \<or> (retrying x' = i # retrying x
             \<and> (\<exists>j. findUnique (queueJob d) i = Some j \<and> status j = ''failed'')))"
  using assms by (auto simp: retryRead_def split: option.splits if_splits)

lemma retryWrite_effect:
  assumes "retryWrite i now (x, d) = (x', d')"
  shows "tickPhase x' = tickPhase x
       \<and> ((d' = d \<and> processedJobs (self x') = processedJobs (self x)
            \<and> set (retrying x') \<subseteq> set (retrying x))
          \<or> (i \<in> set (retrying x)
             \<and> queueJob d' = map (\<lambda>r. if jobId r = i
                   then r\<lparr>status := ''pending'', attempts := 0, error := None,
                          scheduledFor := now, startedAt := None, completedAt := None\<rparr>
                   else r) (queueJob d)
             \<and> processedJobs (self x') = processedJobs (self x) - {i}
             \<and> set (retrying x') \<subseteq> set (retrying x)))"
  using assms
  by (auto simp: retryWrite_def split: if_splits sum.splits dest!: updateJob_Inr
      dest: notin_set_remove1 set_remove1_subset [THEN subsetD])

lemma enqueue_effect:
  assumes "act dflt (Enqueue newId created now inp) (x, d) = (x', d')"
  shows "x' = x
       \<and> (d' = d
          \<or> (\<exists>n. queueJob d' = queueJob d @ [n] \<and> jobId n = newId \<and> attempts n = 0
                 \<and> maxAttempts n = dflt \<and> status n = ''pending''
                 \<and> findUnique (queueJob d) newId = None))"
  using assms
  by (auto simp: act_def addJob_def Let_def split: option.splits sum.splits)


lemma settleJob_rows_any:
  "queueJob (snd (settleJob now j r s)) =
           map (\<lambda>row. if jobId row = jobId j
                     then (case r of
                             Inr u \<Rightarrow> row\<lparr>status := ''completed'', completedAt := Some now\<rparr>
                           | Inl e \<Rightarrow>
                               if attempts j + 1 < maxAttempts j
                               then row\<lparr>status := ''pending'', attempts := attempts j + 1,
                                  error := Some (errorMessageOf e), scheduledFor := now + 5000\<rparr>
                               else row\<lparr>status := ''failed'', attempts := attempts j + 1,
                                  error := Some (errorMessageOf e), completedAt := Some now\<rparr>)
                     else row) (queueJob (snd s))"
proof (cases "jobId j \<in> jobId ` set (queueJob (snd s))")
  case True
  then show ?thesis by (rule settleJob_rows)
next
  case False
  then have "\<forall>row \<in> set (queueJob (snd s)). jobId row \<noteq> jobId j"
    by (metis image_eqI)
  then have "map (\<lambda>row. if jobId row = jobId j
                     then (case r of
                             Inr u \<Rightarrow> row\<lparr>status := ''completed'', completedAt := Some now\<rparr>
                           | Inl e \<Rightarrow>
                               if attempts j + 1 < maxAttempts j
                               then row\<lparr>status := ''pending'', attempts := attempts j + 1,
                                  error := Some (errorMessageOf e), scheduledFor := now + 5000\<rparr>
                               else row\<lparr>status := ''failed'', attempts := attempts j + 1,
                                  error := Some (errorMessageOf e), completedAt := Some now\<rparr>)
                     else row) (queueJob (snd s)) = queueJob (snd s)"
    by (intro map_idI) simp
  then show ?thesis using settleJob_missing [OF False] by simp
qed

lemma act_effect [consumes 1, case_names same added found claimed settled retryread reset]:
  assumes "act dflt ev (x, d) = (x', d')"
  obtains
    "queueJob d' = queueJob d" "processedJobs (self x') = processedJobs (self x)"
      "set (retrying x') \<subseteq> set (retrying x)"
      "holding (tickPhase x') = holding (tickPhase x) \<or> tickPhase x' = Idle"
  | n where "queueJob d' = queueJob d @ [n]" "x' = x"
      "findUnique (queueJob d) (jobId n) = None" "attempts n = 0" "maxAttempts n = dflt"
      "status n = ''pending''"
  | env j where "ev = Proceed env" "tickPhase x = Idle" "tickPhase x' = Found j"
      "d' = d" "findFirst (queueJob d) (tFind env) = Some j"
      "jobId j \<notin> processedJobs (self x)"
      "processedJobs (self x') = processedJobs (self x)" "retrying x' = retrying x"
  | env j where "ev = Proceed env" "tickPhase x = Found j" "tickPhase x' = Claimed j"
      "queueJob d' = map (\<lambda>r. if jobId r = jobId j
                   then r\<lparr>status := ''processing'', startedAt := Some (tClaim env)\<rparr>
                   else r) (queueJob d)"
      "processedJobs (self x') = insert (jobId j) (processedJobs (self x))"
      "retrying x' = retrying x"
  | env j r where "ev = Proceed env" "tickPhase x = Executed j r" "tickPhase x' = Idle"
      "queueJob d' = map (\<lambda>row. if jobId row = jobId j
                     then (case r of
                             Inr u \<Rightarrow> row\<lparr>status := ''completed'',
                                        completedAt := Some (tDone env)\<rparr>
                           | Inl e \<Rightarrow>
                               if attempts j + 1 < maxAttempts j
                               then row\<lparr>status := ''pending'', attempts := attempts j + 1,
                                  error := Some (errorMessageOf e),
                                  scheduledFor := tDone env + 5000\<rparr>
                               else row\<lparr>status := ''failed'', attempts := attempts j + 1,
                                  error := Some (errorMessageOf e),
                                  completedAt := Some (tDone env)\<rparr>)
                     else row) (queueJob d)"
      "processedJobs (self x') = processedJobs (self x)" "retrying x' = retrying x"
  | i R where "ev = RetryRead i" "d' = d" "self x' = self x" "tickPhase x' = tickPhase x"
      "retrying x' = i # retrying x" "findUnique (queueJob d) i = Some R"
      "status R = ''failed''"
  | i now where "ev = RetryWrite i now" "i \<in> set (retrying x)"
      "queueJob d' = map (\<lambda>r. if jobId r = i
                   then r\<lparr>status := ''pending'', attempts := 0, error := None,
                          scheduledFor := now, startedAt := None, completedAt := None\<rparr>
                   else r) (queueJob d)"
      "processedJobs (self x') = processedJobs (self x) - {i}"
      "set (retrying x') \<subseteq> set (retrying x)" "tickPhase x' = tickPhase x"
proof (cases ev)
  case (Enqueue newId created now inp)
  from enqueue_effect [OF assms [unfolded Enqueue]]
  consider "x' = x" "d' = d"
    | n where "x' = x" "queueJob d' = queueJob d @ [n]" "jobId n = newId" "attempts n = 0"
        "maxAttempts n = dflt" "status n = ''pending''" "findUnique (queueJob d) newId = None"
    by blast
  then show ?thesis
  proof cases
    case 1
    then show ?thesis using that(1) by simp
  next
    case 2
    then show ?thesis using that(2) [of n] by simp
  qed
next
  case (Proceed env)
  then have a: "advance env (x, d) = (x', d')" using assms by (simp add: act_def)
  show ?thesis
  proof (cases "tickPhase x")
    case Idle
    from advance_Idle [OF Idle a] show ?thesis
      using that(1) that(3) [of env] Idle Proceed by auto
  next
    case (Found j)
    from advance_Found [OF Found a] show ?thesis
      using that(1) that(4) [of env j] Found Proceed by auto
  next
    case (Claimed j)
    from advance_Claimed [OF Claimed a] show ?thesis
      using that(1) Claimed by auto
  next
    case (Executed j r)
    from advance_Executed [OF Executed a] show ?thesis
      using that(5) [of env j r] Executed Proceed
        settleJob_rows_any [of "tDone env" j r "(self x, d)"] by simp
  qed
next
  case (RetryRead i)
  then have a: "retryRead i (x, d) = (x', d')" using assms by (simp add: act_def)
  from retryRead_effect [OF a] show ?thesis
    using that(1) that(6) [of i] RetryRead by auto
next
  case (RetryWrite i now)
  then have a: "retryWrite i now (x, d) = (x', d')" using assms by (simp add: act_def)
  from retryWrite_effect [OF a] show ?thesis
    using that(1) that(7) [of i now] RetryWrite by auto
qed

subsection \<open>What a step leaves alone\<close>

lemma holdsId_phase:
  "holdsId x i \<longleftrightarrow> (\<exists>j. holding (tickPhase x) = Some j \<and> jobId j = i)"
  by (simp add: holdsId_def split: option.splits)

lemma act_row_kept:
  assumes "act dflt ev (x, d) = (x', d')"
    and "findUnique (queueJob d) i = Some R"
    and "\<not> holdsId x i"
    and "quiet i ev \<or> i \<notin> set (retrying x)"
  shows "findUnique (queueJob d') i = Some R"
  using assms(1)
proof (cases rule: act_effect)
  case same
  then show ?thesis using assms(2) by simp
next
  case (added n)
  then show ?thesis using assms(2) by (simp add: findUnique_append)
next
  case (found env j)
  then show ?thesis using assms(2) by simp
next
  case (claimed env j)
  then have "jobId j \<noteq> i" using assms(3) by (simp add: holdsId_phase)
  then show ?thesis using claimed(4) assms(2) by (simp add: findUnique_map)
next
  case (settled env j r)
  then have ne: "jobId j \<noteq> i" using assms(3) by (simp add: holdsId_phase)
  have "findUnique (queueJob d') i = findUnique (queueJob d) i"
    unfolding settled(4)
    by (subst findUnique_map_any) (use ne assms(2) findUnique_mem in \<open>auto split: sum.splits\<close>)
  then show ?thesis using assms(2) by simp
next
  case (retryread k R')
  then show ?thesis using assms(2) by simp
next
  case (reset k now)
  then have "k \<noteq> i" using assms(4) by (auto simp: quiet_def)
  then show ?thesis using reset(3) assms(2) by (simp add: findUnique_map)
qed

lemma act_not_holding:
  assumes "act dflt ev (x, d) = (x', d')"
    and "\<not> holdsId x i"
    and "i \<in> processedJobs (self x)
       \<or> (distinct (map jobId (queueJob d))
          \<and> (\<exists>R. findUnique (queueJob d) i = Some R \<and> status R \<noteq> ''pending''))"
  shows "\<not> holdsId x' i"
  using assms(1)
proof (cases rule: act_effect)
  case same
  then show ?thesis using assms(2) by (auto simp: holdsId_phase)
next
  case (added n)
  then show ?thesis using assms(2) by simp
next
  case (found env j)
  have m: "j \<in> set (queueJob d)" "status j = ''pending''"
    using findFirst_mem [OF found(5)] by (auto simp: eligible_def)
  have "jobId j \<noteq> i"
  proof
    assume e: "jobId j = i"
    from assms(3) show False
    proof
      assume "i \<in> processedJobs (self x)"
      then show False using found(6) e by simp
    next
      assume a: "distinct (map jobId (queueJob d))
          \<and> (\<exists>R. findUnique (queueJob d) i = Some R \<and> status R \<noteq> ''pending'')"
      then have "findUnique (queueJob d) i = Some j"
        using findUnique_distinct [OF _ m(1)] e by auto
      then show False using a m(2) by auto
    qed
  qed
  then show ?thesis using found(3) by (simp add: holdsId_phase)
next
  case (claimed env j)
  then show ?thesis using assms(2) by (simp add: holdsId_phase)
next
  case (settled env j r)
  then show ?thesis by (simp add: holdsId_phase)
next
  case (retryread k R')
  then show ?thesis using assms(2) by (simp add: holdsId_phase)
next
  case (reset k now)
  then show ?thesis using assms(2) by (simp add: holdsId_phase)
qed

lemma act_processed_kept:
  assumes "act dflt ev (x, d) = (x', d')"
    and "i \<in> processedJobs (self x)"
    and "quiet i ev \<or> i \<notin> set (retrying x)"
  shows "i \<in> processedJobs (self x')"
  using assms(1)
proof (cases rule: act_effect)
  case (reset k now)
  then have "k \<noteq> i" using assms(3) by (auto simp: quiet_def)
  then show ?thesis using reset(4) assms(2) by simp
qed (use assms(2) in auto)

lemma act_retrying_kept:
  assumes "act dflt ev (x, d) = (x', d')"
    and "i \<notin> set (retrying x)"
    and "findUnique (queueJob d) i = Some R" "status R \<noteq> ''failed''"
  shows "i \<notin> set (retrying x')"
  using assms(1)
proof (cases rule: act_effect)
  case (retryread k R')
  then have "k \<noteq> i" using assms(3,4) by auto
  then show ?thesis using retryread(5) assms(2) by simp
qed (use assms(2) in auto)

lemma act_distinct:
  assumes "act dflt ev (x, d) = (x', d')" and "distinct (map jobId (queueJob d))"
  shows "distinct (map jobId (queueJob d'))"
  using assms(1)
proof (cases rule: act_effect)
  case same
  then show ?thesis using assms(2) by simp
next
  case (added n)
  then show ?thesis using assms(2) by (simp add: findUnique_None_iff)
next
  case (found env j)
  then show ?thesis using assms(2) by simp
next
  case (claimed env j)
  have "map jobId (queueJob d') = map jobId (queueJob d)"
    unfolding claimed(4) by (rule jobIds_map) simp
  then show ?thesis using assms(2) by simp
next
  case (settled env j r)
  have "map jobId (queueJob d') = map jobId (queueJob d)"
    unfolding settled(4) by (rule jobIds_map) (simp split: sum.splits)
  then show ?thesis using assms(2) by simp
next
  case (retryread k R')
  then show ?thesis using assms(2) by simp
next
  case (reset k now)
  have "map jobId (queueJob d') = map jobId (queueJob d)"
    unfolding reset(3) by (rule jobIds_map) simp
  then show ?thesis using assms(2) by simp
qed

lemma act_keeps:
  assumes "act dflt ev (x, d) = (x', d')" and "findUnique (queueJob d) i = Some R"
  shows "\<exists>R'. findUnique (queueJob d') i = Some R' \<and> maxAttempts R' = maxAttempts R"
  using assms(1)
proof (cases rule: act_effect)
  case same
  then show ?thesis using assms(2) by simp
next
  case (added n)
  then show ?thesis using assms(2) by (simp add: findUnique_append)
next
  case (found env j)
  then show ?thesis using assms(2) by simp
next
  case (claimed env j)
  show ?thesis
    unfolding claimed(4)
    by (subst findUnique_map_any) (use assms(2) in auto)
next
  case (settled env j r)
  show ?thesis
    unfolding settled(4)
    by (subst findUnique_map_any) (use assms(2) in \<open>auto split: sum.splits\<close>)
next
  case (retryread k R')
  then show ?thesis using assms(2) by simp
next
  case (reset k now)
  show ?thesis
    unfolding reset(3)
    by (subst findUnique_map_any) (use assms(2) in auto)
qed

subsection \<open>Every step keeps the system in order\<close>

lemma phaseOk_keeps:
  assumes "phaseOk jobs y"
    and "\<And>i R. findUnique jobs i = Some R \<Longrightarrow>
           \<exists>R'. findUnique jobs' i = Some R' \<and> maxAttempts R' = maxAttempts R"
  shows "phaseOk jobs' y"
proof (cases "holding (tickPhase y)")
  case None
  then show ?thesis by (simp add: phaseOk_def)
next
  case (Some j)
  with assms(1) obtain R where R: "findUnique jobs (jobId j) = Some R" "maxAttempts R = maxAttempts j"
    and a: "0 \<le> attempts j" "attempts j < maxAttempts j"
    by (auto simp: phaseOk_def split: option.splits)
  from assms(2) [OF R(1)] obtain R' where "findUnique jobs' (jobId j) = Some R'"
    "maxAttempts R' = maxAttempts R" by blast
  then show ?thesis using Some R a by (simp add: phaseOk_def)
qed

lemma phaseOk_same_holding:
  "holding (tickPhase y') = holding (tickPhase y) \<or> tickPhase y' = Idle \<Longrightarrow>
   phaseOk jobs y \<Longrightarrow> phaseOk jobs y'"
  by (auto simp: phaseOk_def)

lemma attemptsOk_map:
  assumes "\<forall>r \<in> set jobs. attemptsOk r"
    and "\<And>r. r \<in> set jobs \<Longrightarrow> attemptsOk r \<Longrightarrow> attemptsOk (h r)"
  shows "\<forall>y \<in> set (map h jobs). attemptsOk y"
  using assms by auto

lemma act_storeOk:
  assumes act: "act dflt ev (x, d) = (x', d')"
    and dflt: "1 \<le> dflt"
    and ok: "storeOk (queueJob d)"
    and ph: "phaseOk (queueJob d) x"
  shows "storeOk (queueJob d')"
proof -
  have dist: "distinct (map jobId (queueJob d))"
    and rows': "\<forall>r \<in> set (queueJob d). attemptsOk r"
    using ok by (auto simp: storeOk_def)
  then have rows: "\<And>r. r \<in> set (queueJob d) \<Longrightarrow> attemptsOk r" by blast
  have dist': "distinct (map jobId (queueJob d'))" using act dist by (rule act_distinct)
  have "\<forall>r \<in> set (queueJob d'). attemptsOk r"
    using act
  proof (cases rule: act_effect)
    case same
    then show ?thesis using rows by simp
  next
    case (added n)
    then have "attemptsOk n" using dflt by (simp add: attemptsOk_def)
    then show ?thesis using added(1) rows by auto
  next
    case (found env j)
    then show ?thesis using rows by simp
  next
    case (claimed env j)
    show ?thesis unfolding claimed(4) using rows'
      by (rule attemptsOk_map) (simp add: attemptsOk_def)
  next
    case (settled env j r)
    from ph settled(2) obtain R where R: "findUnique (queueJob d) (jobId j) = Some R"
      "maxAttempts R = maxAttempts j" and a: "0 \<le> attempts j" "attempts j < maxAttempts j"
      by (auto simp: phaseOk_def split: option.splits)
    have RR: "R \<in> set (queueJob d)" using findUnique_mem [OF R(1)] by simp
    have same: "\<And>row. row \<in> set (queueJob d) \<Longrightarrow> jobId row = jobId j \<Longrightarrow> row = R"
      using distinct_ids_eq [OF dist _ RR] findUnique_mem [OF R(1)] by auto
    show ?thesis
      unfolding settled(4)
    proof
      fix y
      assume "y \<in> set (map (\<lambda>row. if jobId row = jobId j
                     then (case r of
                             Inr u \<Rightarrow> row\<lparr>status := ''completed'',
                                        completedAt := Some (tDone env)\<rparr>
                           | Inl e \<Rightarrow>
                               if attempts j + 1 < maxAttempts j
                               then row\<lparr>status := ''pending'', attempts := attempts j + 1,
                                  error := Some (errorMessageOf e),
                                  scheduledFor := tDone env + 5000\<rparr>
                               else row\<lparr>status := ''failed'', attempts := attempts j + 1,
                                  error := Some (errorMessageOf e),
                                  completedAt := Some (tDone env)\<rparr>)
                     else row) (queueJob d))"
      then obtain row where row: "row \<in> set (queueJob d)"
        and y: "y = (if jobId row = jobId j
                     then (case r of
                             Inr u \<Rightarrow> row\<lparr>status := ''completed'',
                                        completedAt := Some (tDone env)\<rparr>
                           | Inl e \<Rightarrow>
                               if attempts j + 1 < maxAttempts j
                               then row\<lparr>status := ''pending'', attempts := attempts j + 1,
                                  error := Some (errorMessageOf e),
                                  scheduledFor := tDone env + 5000\<rparr>
                               else row\<lparr>status := ''failed'', attempts := attempts j + 1,
                                  error := Some (errorMessageOf e),
                                  completedAt := Some (tDone env)\<rparr>)
                     else row)"
        by auto
      show "attemptsOk y"
      proof (cases "jobId row = jobId j")
        case True
        then have "row = R" using same [OF row] by simp
        then have "maxAttempts row = maxAttempts j" "attemptsOk row"
          using R(2) rows [OF RR] by simp_all
        then show ?thesis
          unfolding y using True a by (cases r) (auto simp: attemptsOk_def)
      next
        case False
        then show ?thesis unfolding y using rows [OF row] by simp
      qed
    qed
  next
    case (retryread k R')
    then show ?thesis using rows by simp
  next
    case (reset k now)
    show ?thesis unfolding reset(3) using rows'
      by (rule attemptsOk_map) (auto simp: attemptsOk_def)
  qed
  with dist' show ?thesis by (simp add: storeOk_def)
qed

lemma act_phaseOk:
  assumes act: "act dflt ev (x, d) = (x', d')"
    and ok: "storeOk (queueJob d)"
    and ph: "phaseOk (queueJob d) x"
  shows "phaseOk (queueJob d') x'"
proof -
  have keep: "phaseOk (queueJob d') y" if "phaseOk (queueJob d) y" for y
    using that act_keeps [OF act] by (rule phaseOk_keeps)
  show ?thesis
    using act
  proof (cases rule: act_effect)
    case same
    then show ?thesis using phaseOk_same_holding [OF same(4) ph] by (simp add: phaseOk_def)
  next
    case (added n)
    then show ?thesis using keep [OF ph] by simp
  next
    case (found env j)
    have m: "j \<in> set (queueJob d)" "status j = ''pending''"
      using findFirst_mem [OF found(5)] by (auto simp: eligible_def)
    then have "attemptsOk j" "findUnique (queueJob d) (jobId j) = Some j"
      using ok findUnique_distinct [of "queueJob d" j] by (auto simp: storeOk_def)
    then show ?thesis using found(3,4) m(2) by (simp add: phaseOk_def attemptsOk_def)
  next
    case (claimed env j)
    have "phaseOk (queueJob d) x'" using ph claimed(2,3) by (simp add: phaseOk_def)
    then show ?thesis by (rule keep)
  next
    case (settled env j r)
    then show ?thesis by (simp add: phaseOk_def)
  next
    case (retryread k R')
    then show ?thesis using ph by (simp add: phaseOk_def)
  next
    case (reset k now)
    have "phaseOk (queueJob d) x'" using ph reset(6) by (simp add: phaseOk_def)
    then show ?thesis by (rule keep)
  qed
qed

lemma perform_systemOk:
  assumes "1 \<le> dflt" "systemOk g"
  shows "systemOk (perform dflt e g)"
proof (cases "fst e < length (fst g)")
  case False
  then show ?thesis using assms(2) by (simp add: perform_def)
next
  case True
  let ?x = "fst g ! fst e"
  obtain x' d' where act: "act dflt (snd e) (?x, snd g) = (x', d')"
    by (cases "act dflt (snd e) (?x, snd g)")
  have p: "perform dflt e g = ((fst g)[fst e := x'], d')"
    using True act by (simp add: perform_def Let_def)
  have ok: "storeOk (queueJob (snd g))" and all: "\<And>y. y \<in> set (fst g) \<Longrightarrow> phaseOk (queueJob (snd g)) y"
    using assms(2) by (auto simp: systemOk_def)
  have xin: "?x \<in> set (fst g)" using True by simp
  have s: "storeOk (queueJob d')" using act assms(1) ok all [OF xin] by (rule act_storeOk)
  have px: "phaseOk (queueJob d') x'" using act ok all [OF xin] by (rule act_phaseOk)
  have others: "phaseOk (queueJob d') y" if "y \<in> set (fst g)" for y
    using all [OF that] act_keeps [OF act] by (rule phaseOk_keeps)
  have "\<forall>y \<in> set ((fst g)[fst e := x']). phaseOk (queueJob d') y"
    using px others set_update_subset_insert [of "fst g" "fst e" x'] by auto
  with s show ?thesis unfolding p by (simp add: systemOk_def)
qed

lemma schedule_systemOk:
  assumes "1 \<le> dflt" "systemOk g"
  shows "systemOk (schedule dflt evs g)"
  using assms(2)
proof (induction evs arbitrary: g)
  case Nil
  then show ?case by (simp add: schedule_def)
next
  case (Cons e evs)
  have "systemOk (perform dflt e g)" using assms(1) Cons.prems by (rule perform_systemOk)
  from Cons.IH [OF this] show ?case by (simp add: schedule_def)
qed

subsection \<open>Schedules\<close>

lemma perform_acting:
  assumes "fst e < length (fst g)" "act dflt (snd e) (fst g ! fst e, snd g) = (x', d')"
  shows "perform dflt e g = ((fst g)[fst e := x'], d')"
  using assms by (simp add: perform_def Let_def)

lemma perform_absent: "\<not> fst e < length (fst g) \<Longrightarrow> perform dflt e g = g"
  by (simp add: perform_def)

lemma schedule_Cons: "schedule dflt (e # evs) g = schedule dflt evs (perform dflt e g)"
  by (simp add: schedule_def)

lemma schedule_Nil: "schedule dflt [] g = g"
  by (simp add: schedule_def)

subsection \<open>A row that is not pending and that no tick holds\<close>



subsection \<open>An id in the processedJobs of an instance\<close>

lemma perform_length: "length (fst (perform dflt e g)) = length (fst g)"
  by (simp add: perform_def Let_def)

lemma perform_other:
  "fst e \<noteq> k \<Longrightarrow> fst (perform dflt e g) ! k = fst g ! k"
  by (simp add: perform_def Let_def)

lemma perform_processed_stays:
  assumes "k < length (fst g)"
    and "i \<in> processedJobs (self (fst g ! k))" "\<not> holdsId (fst g ! k) i"
    and "fst e = k \<longrightarrow> quiet i (snd e)"
  shows "i \<in> processedJobs (self (fst (perform dflt e g) ! k))
       \<and> \<not> holdsId (fst (perform dflt e g) ! k) i"
proof (cases "fst e = k")
  case False
  then show ?thesis using assms by (simp add: perform_other)
next
  case True
  then have t: "fst e < length (fst g)" using assms(1) by simp
  obtain x' d' where act: "act dflt (snd e) (fst g ! fst e, snd g) = (x', d')"
    by (cases "act dflt (snd e) (fst g ! fst e, snd g)")
  have q: "quiet i (snd e)" using True assms(4) by simp
  have a: "i \<in> processedJobs (self x')"
    using assms(2) q True by (intro act_processed_kept [OF act]) auto
  have b: "\<not> holdsId x' i"
    using assms(2,3) True by (intro act_not_holding [OF act]) auto
  show ?thesis
    unfolding perform_acting [OF t act] using a b True assms(1) by simp
qed

lemma schedule_processed_stays:
  assumes "k < length (fst g)"
    and "i \<in> processedJobs (self (fst g ! k))" "\<not> holdsId (fst g ! k) i"
    and "\<forall>e \<in> set evs. fst e = k \<longrightarrow> quiet i (snd e)"
  shows "i \<in> processedJobs (self (fst (schedule dflt evs g) ! k))
       \<and> \<not> holdsId (fst (schedule dflt evs g) ! k) i"
  using assms
proof (induction evs arbitrary: g)
  case Nil
  then show ?case by (simp add: schedule_Nil)
next
  case (Cons e evs)
  have q: "fst e = k \<longrightarrow> quiet i (snd e)" using Cons.prems(4) by simp
  note p = perform_processed_stays [OF Cons.prems(1-3) q, of dflt]
  have l: "k < length (fst (perform dflt e g))" using Cons.prems(1) by (simp add: perform_length)
  show ?case
    unfolding schedule_Cons
    using Cons.IH [of "perform dflt e g"] p l Cons.prems(4) by simp
qed

lemma perform_stuck_alone:
  assumes "k < length (fst g)"
    and "i \<in> processedJobs (self (fst g ! k))" "\<not> holdsId (fst g ! k) i"
    and "i \<notin> set (retrying (fst g ! k))"
    and "findUnique (queueJob (snd g)) i = Some R" "status R = ''pending''"
    and "fst e = k"
  shows "i \<in> processedJobs (self (fst (perform dflt e g) ! k))
       \<and> \<not> holdsId (fst (perform dflt e g) ! k) i
       \<and> i \<notin> set (retrying (fst (perform dflt e g) ! k))
       \<and> findUnique (queueJob (snd (perform dflt e g))) i = Some R"
proof -
  have t: "fst e < length (fst g)" using assms(1,7) by simp
  obtain x' d' where act: "act dflt (snd e) (fst g ! fst e, snd g) = (x', d')"
    by (cases "act dflt (snd e) (fst g ! fst e, snd g)")
  have a: "i \<in> processedJobs (self x')"
    using assms(2,4,7) by (intro act_processed_kept [OF act]) auto
  have b: "\<not> holdsId x' i"
    using assms(2,3,7) by (intro act_not_holding [OF act]) auto
  have c: "i \<notin> set (retrying x')"
    using assms(4,5,6,7) by (intro act_retrying_kept [OF act, of i R]) auto
  have d: "findUnique (queueJob d') i = Some R"
    using assms(3,4,5,7) by (intro act_row_kept [OF act]) auto
  show ?thesis
    unfolding perform_acting [OF t act] using a b c d assms(1,7) by simp
qed

lemma schedule_stuck_alone:
  assumes "k < length (fst g)"
    and "i \<in> processedJobs (self (fst g ! k))" "\<not> holdsId (fst g ! k) i"
    and "i \<notin> set (retrying (fst g ! k))"
    and "findUnique (queueJob (snd g)) i = Some R" "status R = ''pending''"
    and "\<forall>e \<in> set evs. fst e = k"
  shows "findUnique (queueJob (snd (schedule dflt evs g))) i = Some R"
  using assms
proof (induction evs arbitrary: g)
  case Nil
  then show ?case by (simp add: schedule_Nil)
next
  case (Cons e evs)
  have q: "fst e = k" using Cons.prems(7) by simp
  note p = perform_stuck_alone [OF Cons.prems(1-6) q, of dflt]
  have l: "k < length (fst (perform dflt e g))" using Cons.prems(1) by (simp add: perform_length)
  show ?case
    unfolding schedule_Cons
    using Cons.IH [of "perform dflt e g"] p l Cons.prems(6,7) by simp
qed

lemma attemptsGrow_refl: "attemptsGrow jobs jobs"
  by (auto simp: attemptsGrow_def)

lemma attemptsGrow_trans:
  "attemptsGrow a b \<Longrightarrow> attemptsGrow b c \<Longrightarrow> attemptsGrow a c"
  unfolding attemptsGrow_def by (metis order_trans)

subsection \<open>One instance alone: the attempts grow\<close>

lemma attemptsGrow_map:
  assumes "\<And>r. r \<in> set jobs \<Longrightarrow> jobId (h r) = jobId r \<and> attempts r \<le> attempts (h r)"
  shows "attemptsGrow jobs (map h jobs)"
  unfolding attemptsGrow_def
proof
  fix j assume j: "j \<in> set jobs"
  then have "h j \<in> set (map h jobs)" by simp
  then show "\<exists>j' \<in> set (map h jobs). jobId j' = jobId j \<and> attempts j \<le> attempts j'"
    using assms [OF j] by blast
qed

lemma act_grow:
  assumes act: "act dflt ev (x, d) = (x', d')"
    and dist: "distinct (map jobId (queueJob d))"
    and fresh: "\<And>j. holding (tickPhase x) = Some j \<Longrightarrow>
        \<exists>row. findUnique (queueJob d) (jobId j) = Some row \<and> attempts row = attempts j"
    and nr: "\<not> resets ev"
  shows "attemptsGrow (queueJob d) (queueJob d')
       \<and> (\<forall>j. holding (tickPhase x') = Some j \<longrightarrow>
            (\<exists>row. findUnique (queueJob d') (jobId j) = Some row \<and> attempts row = attempts j))"
  using act
proof (cases rule: act_effect)
  case same
  then show ?thesis using fresh by (auto simp: attemptsGrow_refl)
next
  case (added n)
  have "attemptsGrow (queueJob d) (queueJob d')"
    unfolding added(1) attemptsGrow_def by auto
  moreover have "\<forall>j. holding (tickPhase x') = Some j \<longrightarrow>
            (\<exists>row. findUnique (queueJob d') (jobId j) = Some row \<and> attempts row = attempts j)"
    using fresh added(1,2) by (auto simp: findUnique_append)
  ultimately show ?thesis by simp
next
  case (found env j)
  have m: "j \<in> set (queueJob d)" using findFirst_mem [OF found(5)] by simp
  have "findUnique (queueJob d) (jobId j) = Some j" using dist m by (rule findUnique_distinct)
  then show ?thesis using found(3,4) by (simp add: attemptsGrow_refl)
next
  case (claimed env j)
  have g: "attemptsGrow (queueJob d) (queueJob d')"
    unfolding claimed(4) by (rule attemptsGrow_map) simp
  from fresh [of j] claimed(2) obtain row where
    row: "findUnique (queueJob d) (jobId j) = Some row" "attempts row = attempts j" by auto
  have "findUnique (queueJob d') (jobId j) =
      Some (row\<lparr>status := ''processing'', startedAt := Some (tClaim env)\<rparr>)"
    unfolding claimed(4) using row(1) by (simp add: findUnique_map)
  then show ?thesis using g claimed(3) row(2) by simp
next
  case (settled env j r)
  from fresh [of j] settled(2) obtain row where
    row: "findUnique (queueJob d) (jobId j) = Some row" "attempts row = attempts j" by auto
  have rin: "row \<in> set (queueJob d)" using findUnique_mem [OF row(1)] by simp
  have same: "\<And>y. y \<in> set (queueJob d) \<Longrightarrow> jobId y = jobId j \<Longrightarrow> attempts y = attempts j"
    using distinct_ids_eq [OF dist _ rin] findUnique_mem [OF row(1)] row(2) by auto
  have "attemptsGrow (queueJob d) (queueJob d')"
    unfolding settled(4)
  proof (rule attemptsGrow_map)
    fix y assume y: "y \<in> set (queueJob d)"
    show "jobId (if jobId y = jobId j
                     then (case r of
                             Inr u \<Rightarrow> y\<lparr>status := ''completed'',
                                        completedAt := Some (tDone env)\<rparr>
                           | Inl e \<Rightarrow>
                               if attempts j + 1 < maxAttempts j
                               then y\<lparr>status := ''pending'', attempts := attempts j + 1,
                                  error := Some (errorMessageOf e),
                                  scheduledFor := tDone env + 5000\<rparr>
                               else y\<lparr>status := ''failed'', attempts := attempts j + 1,
                                  error := Some (errorMessageOf e),
                                  completedAt := Some (tDone env)\<rparr>)
                     else y) = jobId y
        \<and> attempts y \<le> attempts (if jobId y = jobId j
                     then (case r of
                             Inr u \<Rightarrow> y\<lparr>status := ''completed'',
                                        completedAt := Some (tDone env)\<rparr>
                           | Inl e \<Rightarrow>
                               if attempts j + 1 < maxAttempts j
                               then y\<lparr>status := ''pending'', attempts := attempts j + 1,
                                  error := Some (errorMessageOf e),
                                  scheduledFor := tDone env + 5000\<rparr>
                               else y\<lparr>status := ''failed'', attempts := attempts j + 1,
                                  error := Some (errorMessageOf e),
                                  completedAt := Some (tDone env)\<rparr>)
                     else y)"
      using same [OF y] by (cases r) auto
  qed
  then show ?thesis using settled(3) by simp
next
  case (retryread k R')
  then show ?thesis using fresh by (simp add: attemptsGrow_refl)
next
  case (reset k now)
  then show ?thesis using nr by (simp add: resets_def)
qed

lemma schedule_alone_grows:
  assumes "distinct (map jobId (queueJob (snd g)))"
    and "fst g = [x]"
    and "\<And>j. holding (tickPhase x) = Some j \<Longrightarrow>
        \<exists>row. findUnique (queueJob (snd g)) (jobId j) = Some row \<and> attempts row = attempts j"
    and "\<forall>e \<in> set evs. \<not> resets (snd e)"
  shows "attemptsGrow (queueJob (snd g)) (queueJob (snd (schedule dflt evs g)))"
  using assms
proof (induction evs arbitrary: g x)
  case Nil
  then show ?case by (simp add: schedule_Nil attemptsGrow_refl)
next
  case (Cons e evs)
  show ?case
  proof (cases "fst e < length (fst g)")
    case False
    then have p: "perform dflt e g = g" by (rule perform_absent)
    show ?thesis
      unfolding schedule_Cons p
      using Cons.IH [OF Cons.prems(1,2)] Cons.prems(3,4) by simp
  next
    case True
    then have z: "fst e = 0" "fst g ! fst e = x" using Cons.prems(2) by simp_all
    obtain x' d' where act: "act dflt (snd e) (x, snd g) = (x', d')"
      by (cases "act dflt (snd e) (x, snd g)")
    have p: "perform dflt e g = ([x'], d')"
      using perform_acting [OF True, of dflt x' d'] act z Cons.prems(2) by simp
    have nr: "\<not> resets (snd e)" using Cons.prems(4) by simp
    note step = act_grow [OF act Cons.prems(1) Cons.prems(3) nr]
    have d: "distinct (map jobId (queueJob d'))" using act Cons.prems(1) by (rule act_distinct)
    have g1: "attemptsGrow (queueJob (snd g)) (queueJob d')" using step by simp
    have g2: "attemptsGrow (queueJob d') (queueJob (snd (schedule dflt evs ([x'], d'))))"
      using Cons.IH [of "([x'], d')" x'] d step Cons.prems(4) by simp
    show ?thesis
      unfolding schedule_Cons p using g1 g2 by (rule attemptsGrow_trans)
  qed
qed

subsection \<open>The steps of a tick, taken one after the other, are processNextJob\<close>

lemma worker_swap:
  "(w\<lparr>requestCache := c\<rparr>)\<lparr>processing := b\<rparr> = (w\<lparr>processing := b\<rparr>)\<lparr>requestCache := c\<rparr>"
  by (rule worker.equality) simp_all

lemma failGeneration_processing:
  "failGeneration env g e (w\<lparr>processing := b\<rparr>, d) =
     (fst (failGeneration env g e (w, d)),
      (fst (snd (failGeneration env g e (w, d))))\<lparr>processing := b\<rparr>,
      snd (snd (failGeneration env g e (w, d))))"
  by (cases "updateRow (generation d) g
        (\<lambda>g. g\<lparr>genStatus := ''failed'', genCompletedAt := Some (tResp env)\<rparr>)")
     (simp_all add: failGeneration_def)

lemma handleAIGeneration_processing:
  "handleAIGeneration env j (w\<lparr>processing := b\<rparr>, d) =
     (fst (handleAIGeneration env j (w, d)),
      (fst (snd (handleAIGeneration env j (w, d))))\<lparr>processing := b\<rparr>,
      snd (snd (handleAIGeneration env j (w, d))))"
proof (cases "map_of (payload j) ''prompt''")
  case None
  then show ?thesis
    by (simp add: handleAIGeneration_def Let_def failGeneration_processing)
next
  case (Some p)
  obtain r c' where gc:
    "generateComponent (requestCache w) p (tExec env) (tResp env) (response env) = (r, c')"
    by (cases "generateComponent (requestCache w) p (tExec env) (tResp env) (response env)")
  show ?thesis
  proof (cases r)
    case (Inl e)
    then show ?thesis
      using gc Some
        failGeneration_processing [where w = "w\<lparr>requestCache := c'\<rparr>" and b = b and d = d
          and env = env and g = "map_of (payload j) ''generationId''" and e = e]
      unfolding worker_swap
      by (simp add: handleAIGeneration_def Let_def)
  next
    case (Inr res)
    show ?thesis
    proof (cases "updateRow (generation d) (map_of (payload j) ''generationId'')
                     (\<lambda>g. g\<lparr>genStatus := ''completed'', genResult := Some (code res),
                            genTokensUsed := Some (tokensUsed res),
                            genCompletedAt := Some (tResp env)\<rparr>)")
      case (Inl e)
      then show ?thesis
        using gc Some \<open>r = Inr res\<close>
          failGeneration_processing [where w = "w\<lparr>requestCache := c'\<rparr>" and b = b and d = d
            and env = env and g = "map_of (payload j) ''generationId''" and e = e]
        unfolding worker_swap
        by (simp add: handleAIGeneration_def Let_def)
    next
      case (Inr g')
      then show ?thesis
        using gc Some \<open>r = Inr res\<close>
        by (simp add: handleAIGeneration_def Let_def)
    qed
  qed
qed

lemma handleAIImprovement_processing:
  "handleAIImprovement env j (w\<lparr>processing := b\<rparr>, d) =
     (fst (handleAIImprovement env j (w, d)),
      (fst (snd (handleAIImprovement env j (w, d))))\<lparr>processing := b\<rparr>,
      snd (snd (handleAIImprovement env j (w, d))))"
  by (simp add: handleAIImprovement_def Let_def split: sum.splits)

lemma handleAIValidation_processing:
  "handleAIValidation env j (w\<lparr>processing := b\<rparr>, d) =
     (fst (handleAIValidation env j (w, d)),
      (fst (snd (handleAIValidation env j (w, d))))\<lparr>processing := b\<rparr>,
      snd (snd (handleAIValidation env j (w, d))))"
  by (simp add: handleAIValidation_def Let_def split: sum.splits)

lemma executeJob_processing:
  "executeJob env j (w\<lparr>processing := b\<rparr>, d) =
     (fst (executeJob env j (w, d)),
      (fst (snd (executeJob env j (w, d))))\<lparr>processing := b\<rparr>,
      snd (snd (executeJob env j (w, d))))"
  by (simp add: executeJob_def handleAIGeneration_processing handleAIImprovement_processing
      handleAIValidation_processing)

lemma settleJob_processing:
  "settleJob now j r (w\<lparr>processing := b\<rparr>, d) =
     ((fst (settleJob now j r (w, d)))\<lparr>processing := b\<rparr>, snd (settleJob now j r (w, d)))"
  by (simp add: settleJob_def recordFailure_def Let_def split: sum.splits)

lemma whole_tick:
  assumes "tickPhase x = Idle" "\<not> processing (self x)"
  shows "advance env (advance env (advance env (advance env (x, d)))) =
           (x\<lparr>self := fst (processNextJob env (self x, d))\<rparr>,
            snd (processNextJob env (self x, d)))"
proof (cases "selectJob (tFind env) (self x, d)")
  case None
  have p: "processNextJob env (self x, d) = (self x, d)"
    using None by (simp add: tick_skipped)
  have a: "advance env (x, d) = (x, d)"
    using assms None by (simp add: advance_def)
  show ?thesis unfolding p a by simp
next
  case (Some j)
  then have f: "findFirst (queueJob d) (tFind env) = Some j" "jobId j \<notin> processedJobs (self x)"
    by (auto simp: selectJob_def split: option.splits if_splits)
  have m: "j \<in> set (queueJob d)" using findFirst_mem [OF f(1)] by simp
  let ?w1 = "(self x)\<lparr>processedJobs := insert (jobId j) (processedJobs (self x))\<rparr>"
  let ?d1 = "d\<lparr>queueJob := map (\<lambda>r. if jobId r = jobId j
                      then r\<lparr>status := ''processing'', startedAt := Some (tClaim env)\<rparr>
                      else r) (queueJob d)\<rparr>"
  let ?e = "executeJob env j (?w1, ?d1)"
  let ?s3 = "settleJob (tDone env) j (fst ?e) (snd ?e)"
  have p: "processNextJob env (self x, d) = ((fst ?s3)\<lparr>processing := False\<rparr>, snd ?s3)"
    using tick_selected [OF assms(2) f] by (simp add: Let_def)
  have a1: "advance env (x, d) =
      (x\<lparr>self := (self x)\<lparr>processing := True\<rparr>, tickPhase := Found j\<rparr>, d)"
    using assms Some by (simp add: advance_def)
  have a2: "advance env (x\<lparr>self := (self x)\<lparr>processing := True\<rparr>, tickPhase := Found j\<rparr>, d) =
      (x\<lparr>self := ?w1\<lparr>processing := True\<rparr>, tickPhase := Claimed j\<rparr>, ?d1)"
    using claimJob_selected [OF m, of "tClaim env" "(self x)\<lparr>processing := True\<rparr>"]
    by (simp add: advance_def)
  have a3: "advance env (x\<lparr>self := ?w1\<lparr>processing := True\<rparr>, tickPhase := Claimed j\<rparr>, ?d1) =
      (x\<lparr>self := (fst (snd ?e))\<lparr>processing := True\<rparr>, tickPhase := Executed j (fst ?e)\<rparr>,
       snd (snd ?e))"
    by (simp add: advance_def Let_def executeJob_processing)
  have a4: "advance env
      (x\<lparr>self := (fst (snd ?e))\<lparr>processing := True\<rparr>, tickPhase := Executed j (fst ?e)\<rparr>,
       snd (snd ?e)) =
      (x\<lparr>self := (fst ?s3)\<lparr>processing := False\<rparr>, tickPhase := Idle\<rparr>, snd ?s3)"
    using settleJob_processing [where now = "tDone env" and j = j and r = "fst ?e"
        and w = "fst (snd ?e)" and b = True and d = "snd (snd ?e)"]
    by (simp add: advance_def Let_def)
  show ?thesis
    unfolding a1 a2 a3 a4 p using assms(1) by simp
qed


section \<open>The claims about schedules of several instances\<close>

subsection \<open>The failure on the last attempt\<close>





subsection \<open>A job in processedJobs that is pending again\<close>

text \<open>
  Claim C4, for one instance. Let the id of a job be in the \<^verbatim>\<open>processedJobs\<close> of an
  instance that has no tick in flight on it. First: as long as that instance performs
  no write of a \<^verbatim>\<open>retryJob\<close> on the id, the id stays in its \<^verbatim>\<open>processedJobs\<close> and no
  tick of that instance ever holds the job, so that instance never claims or executes it
  again, whatever the other instances do. Second: if no other instance takes a step, no
  \<^verbatim>\<open>retryJob\<close> of that instance was under way on the id and the row is pending, then
  the row stays as it is, pending, through the whole schedule. Third: a tick of an idle
  instance whose \<^verbatim>\<open>findFirst\<close> returns a job of \<^verbatim>\<open>processedJobs\<close> returns with the
  instance and the store as they were, so no other job is processed on that tick.
\<close>

theorem processed_job_never_runs_again:
  assumes "i < length (fst g)"
    and "jid \<in> processedJobs (self (fst g ! i))"
    and "\<not> holdsId (fst g ! i) jid"
  shows "((\<forall>ev \<in> set evs. fst ev = i \<longrightarrow> quiet jid (snd ev)) \<longrightarrow>
            jid \<in> processedJobs (self (fst (schedule dflt evs g) ! i))
          \<and> \<not> holdsId (fst (schedule dflt evs g) ! i) jid)
       \<and> ((\<forall>ev \<in> set evs. fst ev = i) \<and> jid \<notin> set (retrying (fst g ! i))
           \<and> findUnique (queueJob (snd g)) jid = Some row \<and> status row = ''pending'' \<longrightarrow>
            findUnique (queueJob (snd (schedule dflt evs g))) jid = Some row)
       \<and> (\<forall>(env::tick_env) (x::inst) (d::db) k. tickPhase x = Idle \<and> findFirst (queueJob d) (tFind env) = Some k
              \<and> jobId k \<in> processedJobs (self x) \<longrightarrow> advance env (x, d) = (x, d))"
proof (intro conjI impI allI)
  assume "\<forall>ev \<in> set evs. fst ev = i \<longrightarrow> quiet jid (snd ev)"
  with assms have a: "jid \<in> processedJobs (self (fst (schedule dflt evs g) ! i))
          \<and> \<not> holdsId (fst (schedule dflt evs g) ! i) jid"
    by (rule schedule_processed_stays)
  from a show "jid \<in> processedJobs (self (fst (schedule dflt evs g) ! i))" by simp
  from a show "\<not> holdsId (fst (schedule dflt evs g) ! i) jid" by simp
next
  assume a: "(\<forall>ev \<in> set evs. fst ev = i) \<and> jid \<notin> set (retrying (fst g ! i))
           \<and> findUnique (queueJob (snd g)) jid = Some row \<and> status row = ''pending''"
  show "findUnique (queueJob (snd (schedule dflt evs g))) jid = Some row"
    by (rule schedule_stuck_alone [OF assms, of row evs]) (use a in simp_all)
next
  fix env :: tick_env and x :: inst and d :: db and k
  assume a: "tickPhase x = Idle \<and> findFirst (queueJob d) (tFind env) = Some k
              \<and> jobId k \<in> processedJobs (self x)"
  then have "selectJob (tFind env) (self x, d) = None" by (simp add: selectJob_def)
  then show "advance env (x, d) = (x, d)"
    using a by (cases "processing (self x)") (simp_all add: advance_def)
qed

theorem processed_job_never_runs_again_witness:
  "''j1'' \<in> processedJobs (self (fst afterFirstFailure ! 0))
   \<and> findUnique (queueJob (snd afterFirstFailure)) ''j1'' = Some requeuedRow
   \<and> status requeuedRow = ''pending''
   \<and> findFirst (queueJob (snd afterFirstFailure)) (tFind envLater) = Some requeuedRow
   \<and> ''j1'' \<in> processedJobs (self (fst (schedule 3
        [(1, Proceed envLater), (1, Proceed envLater), (0, Proceed envLater),
         (1, Proceed envLater), (1, Proceed envLater), (0, RetryRead ''j1''),
         (1, RetryRead ''j1''), (1, RetryWrite ''j1'' 6005), (0, Proceed envLater)]
        afterFirstFailure) ! 0))
   \<and> findUnique (queueJob (snd (schedule 3
        [(0, Proceed envLater), (0, RetryRead ''j1''), (0, RetryWrite ''j1'' 7000),
         (0, Enqueue ''j2'' 7001 7001 button), (0, Proceed envLater)]
        afterFirstFailure))) ''j1'' = Some requeuedRow
   \<and> advance envLater (fst afterFirstFailure ! 0, snd afterFirstFailure)
        = (fst afterFirstFailure ! 0, snd afterFirstFailure)"
proof -
  let ?others = "[(1::nat, Proceed envLater), (1, Proceed envLater), (0, Proceed envLater),
         (1, Proceed envLater), (1, Proceed envLater), (0, RetryRead ''j1''),
         (1, RetryRead ''j1''), (1, RetryWrite ''j1'' 6005), (0, Proceed envLater)]"
  let ?alone = "[(0::nat, Proceed envLater), (0, RetryRead ''j1''), (0, RetryWrite ''j1'' 7000),
         (0, Enqueue ''j2'' 7001 7001 button), (0, Proceed envLater)]"
  have h1: "0 < length (fst afterFirstFailure)" by code_simp
  have h2: "''j1'' \<in> processedJobs (self (fst afterFirstFailure ! 0))" by code_simp
  have h3: "\<not> holdsId (fst afterFirstFailure ! 0) ''j1''" by code_simp
  have row: "findUnique (queueJob (snd afterFirstFailure)) ''j1'' = Some requeuedRow"
    by code_simp
  have pending: "status requeuedRow = ''pending''"
    by (simp add: requeuedRow_def pendingJob_def)
  have rid: "jobId requeuedRow = ''j1''"
    by (simp add: requeuedRow_def pendingJob_def)
  have first: "findFirst (queueJob (snd afterFirstFailure)) (tFind envLater) = Some requeuedRow"
    by code_simp
  have idle: "tickPhase (fst afterFirstFailure ! 0) = Idle" by code_simp
  have noretry: "''j1'' \<notin> set (retrying (fst afterFirstFailure ! 0))" by code_simp
  have q: "\<forall>ev \<in> set ?others. fst ev = 0 \<longrightarrow> quiet ''j1'' (snd ev)"
    by (simp add: quiet_def)
  have own: "\<forall>ev \<in> set ?alone. fst ev = 0" by simp
  note t1 = processed_job_never_runs_again [OF h1 h2 h3, of ?others 3 requeuedRow]
  note t2 = processed_job_never_runs_again [OF h1 h2 h3, of ?alone 3 requeuedRow]
  have a: "''j1'' \<in> processedJobs (self (fst (schedule 3 ?others afterFirstFailure) ! 0))"
    using t1 q by blast
  have b: "findUnique (queueJob (snd (schedule 3 ?alone afterFirstFailure))) ''j1''
             = Some requeuedRow"
    using t2 own noretry row pending by blast
  have c: "advance envLater (fst afterFirstFailure ! 0, snd afterFirstFailure)
        = (fst afterFirstFailure ! 0, snd afterFirstFailure)"
    using t2 idle first rid h2 by metis
  show ?thesis using h2 row pending first a b c by simp
qed

text \<open>
  The claim as stated, for the process, does not hold: the process builds an instance
  for every request, each with a \<^verbatim>\<open>processedJobs\<close> of its own. The first instance has
  failed the job once and holds its id; the job is pending with one attempt. A tick of
  the second instance, six seconds later, claims the job and completes it.
\<close>

theorem another_instance_runs_requeued_job:
  "''j1'' \<in> processedJobs (self (fst afterFirstFailure ! 0))
   \<and> map_option (\<lambda>r. (status r, attempts r, maxAttempts r))
       (findUnique (queueJob (snd afterFirstFailure)) ''j1'') = Some (''pending'', 1, 3)
   \<and> map_option (\<lambda>r. (status r, attempts r, startedAt r, completedAt r))
       (findUnique (queueJob (snd (schedule 3
          [(1, Proceed envLater), (1, Proceed envLater),
           (1, Proceed envLater), (1, Proceed envLater)]
          afterFirstFailure))) ''j1'')
     = Some (''completed'', 1, Some 6001, Some 6004)"
  by code_simp

subsection \<open>The bounds on the attempts\<close>

text \<open>
  Claim C9, as the code has it. Let the default of \<open>maxAttempts\<close> be at least 1, and let
  the system be in order at the start: unique ids, every row within its bounds, and
  every tick in flight holding a job with an attempt left whose row is in the table (a
  store with no row and no tick in flight is in order). Then after every schedule of
  steps of any number of instances the system is in order, so every row has
  \<open>0 \<le> attempts \<le> maxAttempts\<close>. And if there is one instance alone, with no tick in
  flight at the start, and the schedule holds no write of a \<^verbatim>\<open>retryJob\<close>, every row
  of the start is in the table at the end with at least as many attempts.
\<close>

theorem attempts_within_bounds:
  assumes "1 \<le> dflt" and "systemOk g"
  shows "systemOk (schedule dflt evs g)
       \<and> (\<forall>j \<in> set (queueJob (snd (schedule dflt evs g))).
             0 \<le> attempts j \<and> attempts j \<le> maxAttempts j)
       \<and> ((\<exists>x. fst g = [x] \<and> tickPhase x = Idle) \<and> (\<forall>e \<in> set evs. \<not> resets (snd e))
            \<longrightarrow> attemptsGrow (queueJob (snd g)) (queueJob (snd (schedule dflt evs g))))"
proof -
  have ok: "systemOk (schedule dflt evs g)" using assms by (rule schedule_systemOk)
  then have b: "\<forall>j \<in> set (queueJob (snd (schedule dflt evs g))).
             0 \<le> attempts j \<and> attempts j \<le> maxAttempts j"
    by (simp add: systemOk_def storeOk_def attemptsOk_def)
  have c: "attemptsGrow (queueJob (snd g)) (queueJob (snd (schedule dflt evs g)))"
    if a: "(\<exists>x. fst g = [x] \<and> tickPhase x = Idle) \<and> (\<forall>e \<in> set evs. \<not> resets (snd e))"
  proof -
    from a obtain x where x: "fst g = [x]" "tickPhase x = Idle" by blast
    have d: "distinct (map jobId (queueJob (snd g)))"
      using assms(2) by (simp add: systemOk_def storeOk_def)
    show ?thesis
      using d x(1) _ conjunct2 [OF a]
      by (rule schedule_alone_grows) (simp add: x(2))
  qed
  from ok b c show ?thesis by blast
qed

theorem attempts_within_bounds_witness:
  "systemOk ([inst0, inst0, inst0], dbWith [pendingJob ''j1'' ''ai_generation'' 1])
   \<and> systemOk (schedule 3
        [(0, Proceed envRejected), (1, Proceed envRejected),
         (0, Proceed envRejected), (0, Proceed envRejected), (0, Proceed envRejected),
         (2, Proceed envLaterRejected), (2, Proceed envLaterRejected),
         (2, Proceed envLaterRejected), (2, Proceed envLaterRejected),
         (0, RetryRead ''j1''),
         (1, Proceed envLast), (1, Proceed envLast), (1, Proceed envLast),
         (0, RetryWrite ''j1'' 10001), (2, Enqueue ''j2'' 10002 10002 button)]
        ([inst0, inst0, inst0], dbWith [pendingJob ''j1'' ''ai_generation'' 1]))
   \<and> attemptsGrow [pendingJob ''j1'' ''ai_generation'' 1]
        (queueJob (snd (schedule 3
           [(0, Proceed envRejected), (0, Enqueue ''j2'' 10 10 button),
            (0, Proceed envRejected), (0, Proceed envRejected), (0, RetryRead ''j1''),
            (0, Proceed envRejected), (0, Proceed envLater)]
           ([inst0], dbWith [pendingJob ''j1'' ''ai_generation'' 1]))))"
proof -
  let ?d = "dbWith [pendingJob ''j1'' ''ai_generation'' 1]"
  let ?evs = "[(0::nat, Proceed envRejected), (1, Proceed envRejected),
         (0, Proceed envRejected), (0, Proceed envRejected), (0, Proceed envRejected),
         (2, Proceed envLaterRejected), (2, Proceed envLaterRejected),
         (2, Proceed envLaterRejected), (2, Proceed envLaterRejected),
         (0, RetryRead ''j1''),
         (1, Proceed envLast), (1, Proceed envLast), (1, Proceed envLast),
         (0, RetryWrite ''j1'' 10001), (2, Enqueue ''j2'' 10002 10002 button)]"
  let ?alone = "[(0::nat, Proceed envRejected), (0, Enqueue ''j2'' 10 10 button),
            (0, Proceed envRejected), (0, Proceed envRejected), (0, RetryRead ''j1''),
            (0, Proceed envRejected), (0, Proceed envLater)]"
  have three: "systemOk ([inst0, inst0, inst0], ?d)"
    by (simp add: systemOk_def storeOk_def attemptsOk_def phaseOk_def inst0_def dbWith_def
        pendingJob_def)
  have one: "systemOk ([inst0], ?d)"
    by (simp add: systemOk_def storeOk_def attemptsOk_def phaseOk_def inst0_def dbWith_def
        pendingJob_def)
  have idle: "\<exists>x. fst ([inst0], ?d) = [x] \<and> tickPhase x = Idle"
    by (simp add: inst0_def)
  have calm: "\<forall>e \<in> set ?alone. \<not> resets (snd e)"
    by (simp add: resets_def)
  have le: "(1::int) \<le> 3" by simp
  have a: "systemOk (schedule 3 ?evs ([inst0, inst0, inst0], ?d))"
    using attempts_within_bounds [OF le three, of ?evs] by (rule conjunct1)
  have b: "attemptsGrow (queueJob (snd ([inst0], ?d)))
             (queueJob (snd (schedule 3 ?alone ([inst0], ?d))))"
    using attempts_within_bounds [OF le one, of ?alone] idle calm by (elim conjE impE) (rule conjI)
  have c: "queueJob (snd ([inst0], ?d)) = [pendingJob ''j1'' ''ai_generation'' 1]"
    by (simp add: dbWith_def)
  show ?thesis using three a b unfolding c by simp
qed

text \<open>
  The two schedules of the example, evaluated: in the first, of three instances, the
  job ends pending with no attempt after the write of the \<^verbatim>\<open>retryJob\<close>; in the second,
  of one instance, it ends pending with two attempts beside the new job.
\<close>

lemma attempts_examples:
  "map_option (\<lambda>r. (status r, attempts r))
     (findUnique (queueJob (snd (schedule 3
        [(0, Proceed envRejected), (1, Proceed envRejected),
         (0, Proceed envRejected), (0, Proceed envRejected), (0, Proceed envRejected),
         (2, Proceed envLaterRejected), (2, Proceed envLaterRejected),
         (2, Proceed envLaterRejected), (2, Proceed envLaterRejected),
         (0, RetryRead ''j1''),
         (1, Proceed envLast), (1, Proceed envLast), (1, Proceed envLast),
         (0, RetryWrite ''j1'' 10001), (2, Enqueue ''j2'' 10002 10002 button)]
        ([inst0, inst0, inst0], dbWith [pendingJob ''j1'' ''ai_generation'' 1])))) ''j1'')
   = Some (''pending'', 0)"
  "map (\<lambda>r. (jobId r, status r, attempts r))
     (queueJob (snd (schedule 3
           [(0, Proceed envRejected), (0, Enqueue ''j2'' 10 10 button),
            (0, Proceed envRejected), (0, Proceed envRejected), (0, RetryRead ''j1''),
            (0, Proceed envRejected), (0, Proceed envLater)]
           ([inst0], dbWith [pendingJob ''j1'' ''ai_generation'' 1]))))
   = [(''j1'', ''pending'', 2), (''j2'', ''pending'', 0)]"
  by code_simp+

text \<open>
  The claim as the specification states it, with \<^verbatim>\<open>retryJob\<close> among the operations
  across which the attempts never decrease, does not hold: \<^verbatim>\<open>retryJob\<close> on a failed
  job with 3 attempts leaves it with 0.
\<close>

theorem manual_retry_lowers_attempts:
  "storeOk (queueJob (dbWith [failedJob ''f1'']))
   \<and> (\<exists>row row'.
         findUnique (queueJob (dbWith [failedJob ''f1''])) ''f1'' = Some row
       \<and> findUnique (queueJob (snd (step 3 (RetryJob ''f1'' 20)
            (worker0, dbWith [failedJob ''f1''])))) ''f1'' = Some row'
       \<and> attempts row = 3 \<and> attempts row' = 0 \<and> attempts row' < attempts row)"
  by (simp add: storeOk_def attemptsOk_def step_def retryJob_def updateJob_def findUnique_def
      dbWith_def failedJob_def pendingJob_def)

subsection \<open>The generation a job names\<close>

lemma failGeneration_row:
  assumes "generation (snd s) g = Some row"
  shows "failGeneration env (Some g) e s =
           (Inl e, (fst s, (snd s)\<lparr>generation := (generation (snd s))
              (g \<mapsto> row\<lparr>genStatus := ''failed'', genCompletedAt := Some (tResp env)\<rparr>)\<rparr>))"
  using assms by (simp add: failGeneration_def updateRow_def)

lemma handleAIGeneration_success:
  assumes "handleAIGeneration env j s = (Inr u, s')"
    and "map_of (payload j) ''generationId'' = Some g"
    and "generation (snd s) g = Some row"
  shows "\<exists>p res c'. map_of (payload j) ''prompt'' = Some p
      \<and> generateComponent (requestCache (fst s)) p (tExec env) (tResp env) (response env)
          = (Inr res, c')
      \<and> generation (snd s') g =
          Some (row\<lparr>genStatus := ''completed'', genResult := Some (code res),
                  genTokensUsed := Some (tokensUsed res),
                  genCompletedAt := Some (tResp env)\<rparr>)"
proof (cases "map_of (payload j) ''prompt''")
  case None
  then show ?thesis
    using assms by (simp add: handleAIGeneration_def failGeneration_row)
next
  case (Some p)
  obtain r c' where gc: "generateComponent (requestCache (fst s)) p (tExec env) (tResp env)
      (response env) = (r, c')"
    by (cases "generateComponent (requestCache (fst s)) p (tExec env) (tResp env) (response env)")
  show ?thesis
  proof (cases r)
    case (Inl e)
    then show ?thesis
      using assms Some gc by (simp add: handleAIGeneration_def failGeneration_row)
  next
    case (Inr res)
    then show ?thesis
      using assms Some gc by (auto simp: handleAIGeneration_def updateRow_def)
  qed
qed

lemma handleAIGeneration_failure:
  assumes "handleAIGeneration env j s = (Inl e, s')"
    and "map_of (payload j) ''generationId'' = Some g"
    and "generation (snd s) g = Some row"
  shows "generation (snd s') g =
          Some (row\<lparr>genStatus := ''failed'', genCompletedAt := Some (tResp env)\<rparr>)"
proof (cases "map_of (payload j) ''prompt''")
  case None
  then show ?thesis
    using assms by (auto simp: handleAIGeneration_def failGeneration_row)
next
  case (Some p)
  obtain r c' where gc: "generateComponent (requestCache (fst s)) p (tExec env) (tResp env)
      (response env) = (r, c')"
    by (cases "generateComponent (requestCache (fst s)) p (tExec env) (tResp env) (response env)")
  show ?thesis
  proof (cases r)
    case (Inl e')
    then show ?thesis
      using assms Some gc by (auto simp: handleAIGeneration_def failGeneration_row)
  next
    case (Inr res)
    then show ?thesis
      using assms Some gc by (auto simp: handleAIGeneration_def updateRow_def)
  qed
qed

text \<open>
  Claim C6, as the code has it. Let a tick select a generation job whose payload names,
  under the key \<open>generationId\<close>, a generation that exists. When the handler returns,
  the payload had a prompt, \<open>generateComponent\<close> returned a result for it, and the
  generation is updated to status completed with the code and the token count of that
  result. When the handler throws, the generation is updated to status failed, whatever
  the attempts of the job: also when the job has attempts left and returns to pending.
\<close>

theorem generation_record_outcome:
  assumes "\<not> processing w"
    and "findFirst (queueJob d) (tFind env) = Some j"
    and "jobId j \<notin> processedJobs w"
    and "jobType j = ''ai_generation''"
    and "map_of (payload j) ''generationId'' = Some g"
    and "generation d g = Some row"
  shows "(outcome env j (w, d) = Inr () \<longrightarrow>
           (\<exists>p res c'. map_of (payload j) ''prompt'' = Some p
             \<and> generateComponent (requestCache w) p (tExec env) (tResp env) (response env)
                 = (Inr res, c')
             \<and> generation (snd (processNextJob env (w, d))) g =
                 Some (row\<lparr>genStatus := ''completed'', genResult := Some (code res),
                         genTokensUsed := Some (tokensUsed res),
                         genCompletedAt := Some (tResp env)\<rparr>)))
       \<and> (\<forall>e. outcome env j (w, d) = Inl e \<longrightarrow>
             generation (snd (processNextJob env (w, d))) g =
               Some (row\<lparr>genStatus := ''failed'', genCompletedAt := Some (tResp env)\<rparr>))"
proof -
  have m: "j \<in> set (queueJob d)" using assms(2) findFirst_mem by blast
  let ?s1 = "afterClaim (tClaim env) j (w, d)"
  have s1: "generation (snd ?s1) = generation d" "requestCache (fst ?s1) = requestCache w"
    by (simp_all add: afterClaim_selected [OF m])
  obtain r s2 where x: "executeJob env j ?s1 = (r, s2)" by (cases "executeJob env j ?s1")
  then have h: "handleAIGeneration env j ?s1 = (r, s2)"
    using assms(4) by (simp add: executeJob_def)
  have o: "outcome env j (w, d) = r" using x by (simp add: outcome_def)
  have t: "generation (snd (processNextJob env (w, d))) = generation (snd s2)"
    using tick_tables [OF assms(1-3)] x by simp
  have row1: "generation (snd ?s1) g = Some row" using assms(6) s1 by simp
  show ?thesis
  proof (intro conjI impI allI)
    assume "outcome env j (w, d) = Inr ()"
    then have "handleAIGeneration env j ?s1 = (Inr (), s2)" using h o by simp
    from handleAIGeneration_success [OF this assms(5) row1]
    show "\<exists>p res c'. map_of (payload j) ''prompt'' = Some p
             \<and> generateComponent (requestCache w) p (tExec env) (tResp env) (response env)
                 = (Inr res, c')
             \<and> generation (snd (processNextJob env (w, d))) g =
                 Some (row\<lparr>genStatus := ''completed'', genResult := Some (code res),
                         genTokensUsed := Some (tokensUsed res),
                         genCompletedAt := Some (tResp env)\<rparr>)"
      unfolding t s1 by simp
  next
    fix e assume "outcome env j (w, d) = Inl e"
    then have "handleAIGeneration env j ?s1 = (Inl e, s2)" using h o by simp
    from handleAIGeneration_failure [OF this assms(5) row1]
    show "generation (snd (processNextJob env (w, d))) g =
               Some (row\<lparr>genStatus := ''failed'', genCompletedAt := Some (tResp env)\<rparr>)"
      unfolding t by simp
  qed
qed


lemma example_outcome_answered:
  "outcome envAnswered (pendingJob i ''ai_generation'' n) (worker0, dbWith [pendingJob i ''ai_generation'' n])
     = Inr ()"
  by (simp add: outcome_def afterClaim_selected dbWith_def executeJob_def handleAIGeneration_def
      pendingJob_def generateComponent_def freshEntry_def worker0_def envAnswered_def
      updateRow_def)

lemma example_generation_failed:
  "generation (snd (processNextJob envRejected
      (worker0, dbWith [pendingJob i ''ai_generation'' n]))) ''g1'' =
   Some (generation0\<lparr>genStatus := ''failed'', genCompletedAt := Some 13\<rparr>)"
proof -
  let ?j = "pendingJob i ''ai_generation'' n"
  have s: "findFirst (queueJob (dbWith [?j])) (tFind envRejected) = Some ?j"
    by (rule example_select)
  have p: "jobId ?j \<notin> processedJobs worker0" by (rule example_facts)
  show ?thesis
    unfolding tick_tables [OF example_facts(2) s p, THEN conjunct1]
    by (simp add: afterClaim_selected dbWith_def executeJob_def handleAIGeneration_def
      pendingJob_def generateComponent_def freshEntry_def worker0_def envRejected_def
      failGeneration_def updateRow_def)
qed

theorem generation_record_outcome_witness:
  "\<not> processing worker0
   \<and> findFirst (queueJob (dbWith [pendingJob ''j1'' ''ai_generation'' 0])) (tFind envAnswered)
       = Some (pendingJob ''j1'' ''ai_generation'' 0)
   \<and> findFirst (queueJob (dbWith [pendingJob ''j1'' ''ai_generation'' 0])) (tFind envRejected)
       = Some (pendingJob ''j1'' ''ai_generation'' 0)
   \<and> jobId (pendingJob ''j1'' ''ai_generation'' 0) \<notin> processedJobs worker0
   \<and> jobType (pendingJob ''j1'' ''ai_generation'' 0) = ''ai_generation''
   \<and> map_of (payload (pendingJob ''j1'' ''ai_generation'' 0)) ''generationId'' = Some ''g1''
   \<and> generation (dbWith [pendingJob ''j1'' ''ai_generation'' 0]) ''g1'' = Some generation0
   \<and> outcome envAnswered (pendingJob ''j1'' ''ai_generation'' 0)
        (worker0, dbWith [pendingJob ''j1'' ''ai_generation'' 0]) = Inr ()
   \<and> outcome envRejected (pendingJob ''j1'' ''ai_generation'' 0)
        (worker0, dbWith [pendingJob ''j1'' ''ai_generation'' 0]) = Inl failedToGenerate
   \<and> generation (snd (processNextJob envAnswered
        (worker0, dbWith [pendingJob ''j1'' ''ai_generation'' 0]))) ''g1'' =
      Some (generation0\<lparr>genStatus := ''completed'', genResult := Some ''<Button/>'',
              genTokensUsed := Some 42, genCompletedAt := Some 13\<rparr>)
   \<and> generation (snd (processNextJob envRejected
        (worker0, dbWith [pendingJob ''j1'' ''ai_generation'' 0]))) ''g1'' =
      Some (generation0\<lparr>genStatus := ''failed'', genCompletedAt := Some 13\<rparr>)"
proof -
  let ?j = "pendingJob ''j1'' ''ai_generation'' 0"
  have h1: "\<not> processing worker0" by (rule example_facts)
  have h2: "findFirst (queueJob (dbWith [?j])) (tFind envAnswered) = Some ?j"
    by (rule example_select)
  have h2': "findFirst (queueJob (dbWith [?j])) (tFind envRejected) = Some ?j"
    by (rule example_select)
  have h3: "jobId ?j \<notin> processedJobs worker0" by (rule example_facts)
  have h4: "jobType ?j = ''ai_generation''" by (rule example_facts)
  have h5: "map_of (payload ?j) ''generationId'' = Some ''g1''" by (simp add: pendingJob_def)
  have h6: "generation (dbWith [?j]) ''g1'' = Some generation0" by (simp add: dbWith_def)
  have oa: "outcome envAnswered ?j (worker0, dbWith [?j]) = Inr ()"
    by (rule example_outcome_answered)
  have orj: "outcome envRejected ?j (worker0, dbWith [?j]) = Inl failedToGenerate"
    by (rule example_outcome_rejected)
  have pr: "map_of (payload ?j) ''prompt'' = Some ''button''" by (simp add: pendingJob_def)
  have gc: "generateComponent (requestCache worker0) ''button'' (tExec envAnswered)
      (tResp envAnswered) (response envAnswered) =
      (Inr \<lparr>code = ''<Button/>'', tokensUsed = 42\<rparr>,
       sweep 13 ([''button'' \<mapsto> \<lparr>result = ''<Button/>'', timestamp = 13\<rparr>]))"
    by (simp add: generateComponent_def freshEntry_def worker0_def envAnswered_def)
  have t: "tResp envAnswered = 13" "tResp envRejected = 13"
    by (simp_all add: envAnswered_def envRejected_def)
  have a: "generation (snd (processNextJob envAnswered (worker0, dbWith [?j]))) ''g1'' =
      Some (generation0\<lparr>genStatus := ''completed'', genResult := Some ''<Button/>'',
              genTokensUsed := Some 42, genCompletedAt := Some 13\<rparr>)"
    using generation_record_outcome [OF h1 h2 h3 h4 h5 h6] oa pr gc t by auto
  have b: "generation (snd (processNextJob envRejected (worker0, dbWith [?j]))) ''g1'' =
      Some (generation0\<lparr>genStatus := ''failed'', genCompletedAt := Some 13\<rparr>)"
    using generation_record_outcome [OF h1 h2' h3 h4 h5 h6] orj t by auto
  from h1 h2 h2' h3 h4 h5 h6 oa orj a b show ?thesis by blast
qed

text \<open>
  The claim as the specification states it (a failure that will still be retried does not
  mark the Result Record failed) does not hold: the provider rejects the request of a job
  with no attempt used and three allowed; the job returns to pending, to be retried,
  with one attempt used, and the generation it names is marked failed all the same.
\<close>

theorem retried_failure_marks_generation_failed:
  "(\<exists>row. findUnique (queueJob (snd (processNextJob envRejected
          (worker0, dbWith [pendingJob ''j1'' ''ai_generation'' 0])))) ''j1'' = Some row
        \<and> status row = ''pending'' \<and> attempts row = 1 \<and> maxAttempts row = 3)
   \<and> (\<exists>g. generation (snd (processNextJob envRejected
          (worker0, dbWith [pendingJob ''j1'' ''ai_generation'' 0]))) ''g1'' = Some g
        \<and> genStatus g = ''failed'')"
  by (simp add: example_requeued example_generation_failed example_facts)

end
